theory Spec2Isabelle
  imports Complex_Main "HOL-Library.Multiset"
begin

section \<open>Values of the C program\<close>

subsection \<open>Doubles\<close>

text \<open>
  A \<open>double\<close> of the program is a finite real, one of the two infinities, or
  not-a-number. The two signed zeros are identified: the program never divides by a zero
  and never inspects the sign of a zero, so they behave alike. Every arithmetic operation
  computes the exact result, rounds it with the rounding function \<open>rnd\<close> (the parameter of
  every operation below; for IEEE 754 binary64 it is round-to-nearest-even with
  unbounded exponent, the rounding \<open>binary64\<close> defined with the example inputs) and
  overflows to an infinity when the rounded result exceeds \<open>DBL_MAX\<close> in magnitude. The
  rounding \<open>exact\<close> rounds nothing; it agrees with binary64 wherever the exact result is
  representable.
\<close>

datatype double = Fin real | PInf | NInf | NaN

type_synonym rounding = "real \<Rightarrow> real"

definition exact :: rounding where
  "exact x = x"

definition DBL_MAX :: real where
  "DBL_MAX = 2 ^ 1024 - 2 ^ 971"

definition DBL_EPSILON :: double where
  "DBL_EPSILON = Fin (1 / 2 ^ 52)"

definition INFINITY :: double where
  "INFINITY = PInf"

definition RAND_MAX :: nat where
  "RAND_MAX = 2147483647"

definition fin :: "rounding \<Rightarrow> real \<Rightarrow> double" where
  "fin rnd x =
     (let y = rnd x in
      if y > DBL_MAX then PInf else if y < - DBL_MAX then NInf else Fin y)"

fun fneg :: "double \<Rightarrow> double" where
  "fneg (Fin x) = Fin (- x)"
| "fneg PInf = NInf"
| "fneg NInf = PInf"
| "fneg NaN = NaN"

fun fadd :: "rounding \<Rightarrow> double \<Rightarrow> double \<Rightarrow> double" where
  "fadd rnd (Fin x) (Fin y) = fin rnd (x + y)"
| "fadd rnd (Fin x) PInf = PInf"
| "fadd rnd (Fin x) NInf = NInf"
| "fadd rnd PInf (Fin y) = PInf"
| "fadd rnd PInf PInf = PInf"
| "fadd rnd PInf NInf = NaN"
| "fadd rnd NInf (Fin y) = NInf"
| "fadd rnd NInf NInf = NInf"
| "fadd rnd NInf PInf = NaN"
| "fadd rnd NaN b = NaN"
| "fadd rnd a NaN = NaN"

definition fsub :: "rounding \<Rightarrow> double \<Rightarrow> double \<Rightarrow> double" where
  "fsub rnd a b = fadd rnd a (fneg b)"

text \<open>The sign of an infinite product; a zero times an infinity is not a number.\<close>

fun inf_times :: "bool \<Rightarrow> real \<Rightarrow> double" where
  "inf_times pos x =
     (if x = 0 then NaN else if (0 < x) = pos then PInf else NInf)"

fun fmul :: "rounding \<Rightarrow> double \<Rightarrow> double \<Rightarrow> double" where
  "fmul rnd (Fin x) (Fin y) = fin rnd (x * y)"
| "fmul rnd (Fin x) PInf = inf_times True x"
| "fmul rnd (Fin x) NInf = inf_times False x"
| "fmul rnd PInf (Fin y) = inf_times True y"
| "fmul rnd NInf (Fin y) = inf_times False y"
| "fmul rnd PInf PInf = PInf"
| "fmul rnd PInf NInf = NInf"
| "fmul rnd NInf PInf = NInf"
| "fmul rnd NInf NInf = PInf"
| "fmul rnd NaN b = NaN"
| "fmul rnd a NaN = NaN"

text \<open>
  Division. A finite nonzero value divided by zero is an infinity of the dividend's sign
  (the zero divisor taken as positive); the program divides only by positive values.
\<close>

fun fdiv :: "rounding \<Rightarrow> double \<Rightarrow> double \<Rightarrow> double" where
  "fdiv rnd (Fin x) (Fin y) =
     (if y = 0 then (if x = 0 then NaN else if 0 < x then PInf else NInf)
      else fin rnd (x / y))"
| "fdiv rnd (Fin x) PInf = Fin 0"
| "fdiv rnd (Fin x) NInf = Fin 0"
| "fdiv rnd PInf (Fin y) = (if 0 \<le> y then PInf else NInf)"
| "fdiv rnd NInf (Fin y) = (if 0 \<le> y then NInf else PInf)"
| "fdiv rnd PInf PInf = NaN"
| "fdiv rnd PInf NInf = NaN"
| "fdiv rnd NInf PInf = NaN"
| "fdiv rnd NInf NInf = NaN"
| "fdiv rnd NaN b = NaN"
| "fdiv rnd a NaN = NaN"

fun fsqrt :: "rounding \<Rightarrow> double \<Rightarrow> double" where
  "fsqrt rnd (Fin x) = (if x < 0 then NaN else fin rnd (sqrt x))"
| "fsqrt rnd PInf = PInf"
| "fsqrt rnd NInf = NaN"
| "fsqrt rnd NaN = NaN"

text \<open>The comparisons \<open><\<close>, \<open>>=\<close> and \<open>!=\<close> of C: every ordered comparison with NaN is false.\<close>

fun flt :: "double \<Rightarrow> double \<Rightarrow> bool" where
  "flt (Fin x) (Fin y) = (x < y)"
| "flt (Fin x) PInf = True"
| "flt NInf (Fin y) = True"
| "flt NInf PInf = True"
| "flt a b = False"

fun fge :: "double \<Rightarrow> double \<Rightarrow> bool" where
  "fge NaN b = False"
| "fge a NaN = False"
| "fge a b = (\<not> flt a b)"

definition fgt :: "double \<Rightarrow> double \<Rightarrow> bool" where
  "fgt a b = flt b a"

definition fne :: "double \<Rightarrow> double \<Rightarrow> bool" where
  "fne a b = (a = NaN \<or> b = NaN \<or> a \<noteq> b)"

fun is_finite :: "double \<Rightarrow> bool" where
  "is_finite (Fin x) = True"
| "is_finite a = False"

subsection \<open>Sizes and conversions\<close>

text \<open>
  A \<open>size_t\<close> is a natural number; the counters of the program are bounded by the number
  of rows and never wrap. \<open>of_size_t\<close> is the conversion \<open>(double) n\<close>. \<open>to_size_t\<close> is the
  conversion \<open>(size_t) x\<close>, which truncates toward zero and is undefined in C when the
  truncated value is not a \<open>size_t\<close>.
\<close>

datatype error =
    OutOfBounds
  | UninitRead
  | BadConversion
  | BadPointer
  | NegativeSum
  | NanDistance
  | NanMovement

definition of_size_t :: "rounding \<Rightarrow> nat \<Rightarrow> double" where
  "of_size_t rnd n = fin rnd (real n)"

fun to_size_t :: "double \<Rightarrow> error + nat" where
  "to_size_t (Fin x) =
     (if - 1 < x \<and> x < 2 ^ 64 then Inr (nat \<lfloor>x\<rfloor>) else Inl BadConversion)"
| "to_size_t a = Inl BadConversion"

subsection \<open>Results and arrays\<close>

text \<open>
  A run either stops with an \<open>error\<close> (a \<open>failwith\<close> of the program, or an access that C
  leaves undefined) or yields a value. An array is a list of cells; a cell that \<open>malloc\<close>
  returned and nothing has written yet holds \<open>None\<close>. A \<open>double**\<close> is an array of row
  buffers: every row buffer of the program is allocated on its own.
\<close>

definition ebind :: "error + 'a \<Rightarrow> ('a \<Rightarrow> error + 'b) \<Rightarrow> error + 'b" where
  "ebind r f = (case r of Inl e \<Rightarrow> Inl e | Inr x \<Rightarrow> f x)"

type_synonym 'a array = "'a option list"

definition malloc :: "nat \<Rightarrow> 'a array" where
  "malloc n = replicate n None"

definition rd :: "'a array \<Rightarrow> nat \<Rightarrow> error + 'a" where
  "rd a i =
     (if i < length a
      then (case a ! i of None \<Rightarrow> Inl UninitRead | Some v \<Rightarrow> Inr v)
      else Inl OutOfBounds)"

definition wr :: "'a array \<Rightarrow> nat \<Rightarrow> 'a \<Rightarrow> error + 'a array" where
  "wr a i v = (if i < length a then Inr (a[i := Some v]) else Inl OutOfBounds)"

definition rd2 :: "'a array array \<Rightarrow> nat \<Rightarrow> nat \<Rightarrow> error + 'a" where
  "rd2 a i j = ebind (rd a i) (\<lambda>row. rd row j)"

definition wr2 :: "'a array array \<Rightarrow> nat \<Rightarrow> nat \<Rightarrow> 'a \<Rightarrow> error + 'a array array" where
  "wr2 a i j v = ebind (rd a i) (\<lambda>row. ebind (wr row j v) (\<lambda>row'. wr a i row'))"

text \<open>The loop \<open>for (i = ...; i < ...; i++)\<close> over the indices \<open>is\<close>, stopping at an error.\<close>

primrec forM :: "nat list \<Rightarrow> (nat \<Rightarrow> 's \<Rightarrow> error + 's) \<Rightarrow> 's \<Rightarrow> error + 's" where
  "forM [] f s = Inr s"
| "forM (i # is) f s = ebind (f i s) (forM is f)"

section \<open>The distance function\<close>

definition distf64v :: "rounding \<Rightarrow> double array \<Rightarrow> double array \<Rightarrow> nat \<Rightarrow> error + double" where
  "distf64v rnd p q m =
     ebind
       (forM [0..<m]
          (\<lambda>i sum.
             ebind (rd p i) (\<lambda>pi.
             ebind (rd q i) (\<lambda>qi.
             Inr (fadd rnd sum (fmul rnd (fsub rnd pi qi) (fsub rnd pi qi))))))
          (Fin 0))
       (\<lambda>sum.
          if flt sum (Fin 0) then Inl NegativeSum
          else
            (let out = fsqrt rnd sum in
             if fne out out then Inl NanDistance else Inr out))"

section \<open>Kernel initialisation\<close>

subsection \<open>Uniform random sampling\<close>

text \<open>
  \<open>rand()\<close> is the sequence \<open>rng\<close> of the values it returns after \<open>srand\<close>, read at a call
  counter \<open>c\<close>. The scan of \<open>previous[0..i)\<close> for the drawn row:
\<close>

definition already_seen :: "nat array \<Rightarrow> nat \<Rightarrow> nat \<Rightarrow> error + bool" where
  "already_seen previous i row =
     forM [0..<i]
       (\<lambda>ri seen. ebind (rd previous ri) (\<lambda>p. Inr (if p = row then True else seen)))
       False"

text \<open>
  The loop \<open>while (true)\<close> that draws a row until one is new. It returns the row and the
  call counter after the draw; it need not return at all.
\<close>

partial_function (option) pick_row ::
  "rounding \<Rightarrow> (nat \<Rightarrow> nat) \<Rightarrow> nat \<Rightarrow> nat array \<Rightarrow> nat \<Rightarrow> nat \<Rightarrow> (error + nat \<times> nat) option"
where
  "pick_row rnd rng n previous i c =
     (case
        ebind
          (to_size_t
             (fmul rnd (fdiv rnd (of_size_t rnd (rng c)) (of_size_t rnd RAND_MAX))
                (of_size_t rnd n)))
          (\<lambda>row. ebind (already_seen previous i row) (\<lambda>seen. Inr (row, seen)))
      of
        Inl e \<Rightarrow> Some (Inl e)
      | Inr (row, seen) \<Rightarrow>
          if \<not> seen then Some (Inr (row, Suc c))
          else pick_row rnd rng n previous i (Suc c))"

text \<open>A \<open>for\<close> loop whose body may run forever.\<close>

primrec forMo ::
  "nat list \<Rightarrow> (nat \<Rightarrow> 's \<Rightarrow> (error + 's) option) \<Rightarrow> 's \<Rightarrow> (error + 's) option"
where
  "forMo [] f s = Some (Inr s)"
| "forMo (i # is) f s =
     (case f i s of
        None \<Rightarrow> None
      | Some (Inl e) \<Rightarrow> Some (Inl e)
      | Some (Inr s') \<Rightarrow> forMo is f s')"

text \<open>\<open>kernels = malloc(k pointers)\<close>, then \<open>kernels[i] = malloc(m doubles)\<close> for every \<open>i\<close>.\<close>

definition alloc_rows :: "nat \<Rightarrow> nat \<Rightarrow> error + double array array" where
  "alloc_rows k m = forM [0..<k] (\<lambda>i a. wr a i (malloc m)) (malloc k)"

definition copy_row ::
  "double array array \<Rightarrow> nat \<Rightarrow> nat \<Rightarrow> nat \<Rightarrow> double array array \<Rightarrow> error + double array array"
where
  "copy_row data_rows row m i kernels =
     forM [0..<m]
       (\<lambda>j kernels. ebind (rd2 data_rows row j) (\<lambda>v. wr2 kernels i j v))
       kernels"

definition pick_random_kernels ::
  "rounding \<Rightarrow> (nat \<Rightarrow> nat) \<Rightarrow> double array array \<Rightarrow> nat \<Rightarrow> nat \<Rightarrow> nat
     \<Rightarrow> (error + double array array) option"
where
  "pick_random_kernels rnd rng data_rows n m k =
     (case alloc_rows k m of
        Inl e \<Rightarrow> Some (Inl e)
      | Inr kernels0 \<Rightarrow>
          (case
             forMo [0..<k]
               (\<lambda>i (kernels, previous, c).
                  case pick_row rnd rng n previous i c of
                    None \<Rightarrow> None
                  | Some (Inl e) \<Rightarrow> Some (Inl e)
                  | Some (Inr (row, c')) \<Rightarrow>
                      Some
                        (ebind (wr previous i row) (\<lambda>previous'.
                         ebind (copy_row data_rows row m i kernels) (\<lambda>kernels'.
                         Inr (kernels', previous', c')))))
               (kernels0, malloc k, 0)
           of
             None \<Rightarrow> None
           | Some (Inl e) \<Rightarrow> Some (Inl e)
           | Some (Inr (kernels, previous, c)) \<Rightarrow> Some (Inr kernels)))"

subsection \<open>Percentile sampling\<close>

definition cmpf64v :: "double array \<Rightarrow> double array \<Rightarrow> nat \<Rightarrow> error + int" where
  "cmpf64v a b d =
     ebind (rd a d) (\<lambda>x.
     ebind (rd b d) (\<lambda>y.
     Inr (if fgt x y then 1 else if flt x y then - 1 else 0)))"

text \<open>
  \<open>qsort_r\<close> belongs to the C library, not to the repository. It is modelled from its
  specification as a sort of the first \<open>n\<close> cells of the array by the comparison function:
  an insertion sort, which places an element before the first one it does not exceed.
\<close>

fun insert_by :: "('a \<Rightarrow> 'a \<Rightarrow> error + int) \<Rightarrow> 'a \<Rightarrow> 'a list \<Rightarrow> error + 'a list" where
  "insert_by cmp x [] = Inr [x]"
| "insert_by cmp x (y # ys) =
     ebind (cmp x y) (\<lambda>c.
       if c \<le> 0 then Inr (x # y # ys)
       else ebind (insert_by cmp x ys) (\<lambda>zs. Inr (y # zs)))"

fun sort_by :: "('a \<Rightarrow> 'a \<Rightarrow> error + int) \<Rightarrow> 'a list \<Rightarrow> error + 'a list" where
  "sort_by cmp [] = Inr []"
| "sort_by cmp (x # xs) = ebind (sort_by cmp xs) (insert_by cmp x)"

definition qsort_r ::
  "'a array \<Rightarrow> nat \<Rightarrow> ('a \<Rightarrow> 'a \<Rightarrow> error + int) \<Rightarrow> error + 'a array"
where
  "qsort_r base n cmp =
     (if length base < n then Inl OutOfBounds
      else if None \<in> set (take n base) then Inl UninitRead
      else ebind (sort_by cmp (map the (take n base)))
             (\<lambda>ys. Inr (map Some ys @ drop n base)))"

definition copy_data ::
  "double array array \<Rightarrow> nat \<Rightarrow> nat \<Rightarrow> error + double array array"
where
  "copy_data data_rows n m =
     forM [0..<n]
       (\<lambda>i cp. ebind (wr cp i (malloc m)) (copy_row data_rows i m i))
       (malloc n)"

definition pivot_of :: "rounding \<Rightarrow> nat \<Rightarrow> nat \<Rightarrow> nat \<Rightarrow> error + nat" where
  "pivot_of rnd n k i =
     (let t = fmul rnd (Fin 2) (of_size_t rnd i);
          b = fmul rnd (of_size_t rnd k) (Fin 2)
      in to_size_t (fmul rnd (fdiv rnd t b) (of_size_t rnd n)))"

definition make_pivots :: "rounding \<Rightarrow> nat \<Rightarrow> nat \<Rightarrow> error + nat array" where
  "make_pivots rnd n k =
     forM [0..<k] (\<lambda>i pivots. ebind (pivot_of rnd n k i) (wr pivots i)) (malloc k)"

definition read_pivots ::
  "nat array \<Rightarrow> double array array \<Rightarrow> nat \<Rightarrow> nat \<Rightarrow> double array array
     \<Rightarrow> error + double array array"
where
  "read_pivots pivots data_rows_copy k i kernels =
     forM [0..<k]
       (\<lambda>j kernels.
          ebind (rd pivots j) (\<lambda>pivot.
          ebind (rd2 data_rows_copy pivot i) (\<lambda>v. wr2 kernels j i v)))
       kernels"

definition generate_mean_kernels ::
  "rounding \<Rightarrow> double array array \<Rightarrow> nat \<Rightarrow> nat \<Rightarrow> nat \<Rightarrow> error + double array array"
where
  "generate_mean_kernels rnd data_rows n m k =
     ebind (copy_data data_rows n m) (\<lambda>data_rows_copy.
     ebind (alloc_rows k m) (\<lambda>kernels.
     ebind (make_pivots rnd n k) (\<lambda>pivots.
     ebind
       (forM [0..<m]
          (\<lambda>i (cp, kernels).
             ebind (qsort_r cp n (\<lambda>a b. cmpf64v a b i)) (\<lambda>cp'.
             ebind (read_pivots pivots cp' k i kernels) (\<lambda>kernels'.
             Inr (cp', kernels'))))
          (data_rows_copy, kernels))
       (\<lambda>(cp, kernels). Inr kernels))))"

section \<open>The clustering loop\<close>

text \<open>
  The variables of \<open>k_means\<close> that the loop reads and writes: the local \<open>kernels\<close>,
  \<open>movement\<close> and \<open>iterations\<close>, and the four global arrays.
\<close>

record state =
  kernels :: "double array array"
  prev_means :: "double array array"
  kernel_followers :: "nat array"
  kernel_follower_count :: "nat array"
  kernel_follower_sum :: "double array array"
  movement :: double
  iterations :: nat

text \<open>Snapshot of the kernels into \<open>prev_means\<close>.\<close>

definition snapshot :: "nat \<Rightarrow> nat \<Rightarrow> state \<Rightarrow> error + state" where
  "snapshot k m =
     forM [0..<k] (\<lambda>ki.
       forM [0..<m] (\<lambda>vi s.
         ebind (rd2 (kernels s) ki vi) (\<lambda>v.
         ebind (wr2 (prev_means s) ki vi v) (\<lambda>pm.
         Inr (s\<lparr>prev_means := pm\<rparr>)))))"

text \<open>Reset of the follower counts and sums.\<close>

definition reset :: "nat \<Rightarrow> nat \<Rightarrow> state \<Rightarrow> error + state" where
  "reset k m =
     forM [0..<k] (\<lambda>ki s.
       ebind (wr (kernel_follower_count s) ki 0) (\<lambda>cnt.
       forM [0..<m]
         (\<lambda>vi s.
            ebind (wr2 (kernel_follower_sum s) ki vi (Fin 0)) (\<lambda>sm.
            Inr (s\<lparr>kernel_follower_sum := sm\<rparr>)))
         (s\<lparr>kernel_follower_count := cnt\<rparr>)))"

text \<open>
  The search for the closest kernel of a row: the pair of \<open>closest_distance\<close> and
  \<open>closest_kernel\<close>, which start at \<open>INFINITY\<close> and \<open>0\<close>.
\<close>

definition closest ::
  "rounding \<Rightarrow> double array \<Rightarrow> double array array \<Rightarrow> nat \<Rightarrow> nat \<Rightarrow> error + double \<times> nat"
where
  "closest rnd row ks k m =
     forM [0..<k]
       (\<lambda>ki (closest_distance, closest_kernel).
          ebind (rd ks ki) (\<lambda>kernel.
          ebind (distf64v rnd row kernel m) (\<lambda>distance.
          Inr (if flt distance closest_distance then (distance, ki)
               else (closest_distance, closest_kernel)))))
       (INFINITY, 0)"

definition add_row ::
  "rounding \<Rightarrow> double array \<Rightarrow> nat \<Rightarrow> nat \<Rightarrow> state \<Rightarrow> error + state"
where
  "add_row rnd row closest_kernel m =
     forM [0..<m] (\<lambda>vi s.
       ebind (rd row vi) (\<lambda>x.
       ebind (rd2 (kernel_follower_sum s) closest_kernel vi) (\<lambda>acc.
       ebind (wr2 (kernel_follower_sum s) closest_kernel vi (fadd rnd acc x)) (\<lambda>sm.
       Inr (s\<lparr>kernel_follower_sum := sm\<rparr>)))))"

definition assign_row ::
  "rounding \<Rightarrow> double array array \<Rightarrow> nat \<Rightarrow> nat \<Rightarrow> nat \<Rightarrow> state \<Rightarrow> error + state"
where
  "assign_row rnd data_rows m k ri s =
     ebind (rd data_rows ri) (\<lambda>row.
     ebind (closest rnd row (kernels s) k m) (\<lambda>(closest_distance, closest_kernel).
     ebind (wr (kernel_followers s) ri closest_kernel) (\<lambda>kf.
     ebind (rd (kernel_follower_count s) closest_kernel) (\<lambda>c.
     ebind (wr (kernel_follower_count s) closest_kernel (c + 1)) (\<lambda>cnt.
     add_row rnd row closest_kernel m
       (s\<lparr>kernel_followers := kf, kernel_follower_count := cnt\<rparr>))))))"

definition assign ::
  "rounding \<Rightarrow> double array array \<Rightarrow> nat \<Rightarrow> nat \<Rightarrow> nat \<Rightarrow> state \<Rightarrow> error + state"
where
  "assign rnd data_rows n m k = forM [0..<n] (assign_row rnd data_rows m k)"

text \<open>Update of the kernels to the means of their followers.\<close>

definition update_kernel :: "rounding \<Rightarrow> nat \<Rightarrow> nat \<Rightarrow> state \<Rightarrow> error + state" where
  "update_kernel rnd m ki =
     forM [0..<m] (\<lambda>vi s.
       ebind (rd (kernel_follower_count s) ki) (\<lambda>c.
       if c \<le> 0 then Inr s
       else
         ebind (rd2 (kernel_follower_sum s) ki vi) (\<lambda>sm.
         ebind (wr2 (kernels s) ki vi (fdiv rnd sm (of_size_t rnd c))) (\<lambda>ks.
         Inr (s\<lparr>kernels := ks\<rparr>)))))"

definition update :: "rounding \<Rightarrow> nat \<Rightarrow> nat \<Rightarrow> state \<Rightarrow> error + state" where
  "update rnd k m = forM [0..<k] (update_kernel rnd m)"

text \<open>Update of \<open>movement\<close>.\<close>

definition update_movement :: "rounding \<Rightarrow> nat \<Rightarrow> nat \<Rightarrow> state \<Rightarrow> error + state" where
  "update_movement rnd k m s =
     forM [0..<k]
       (\<lambda>ki s.
          ebind (rd (prev_means s) ki) (\<lambda>p.
          ebind (rd (kernels s) ki) (\<lambda>q.
          ebind (distf64v rnd p q m) (\<lambda>current_movement.
          (let mv = fadd rnd (movement s) current_movement in
           if fne mv mv then Inl NanMovement else Inr (s\<lparr>movement := mv\<rparr>))))))
       (s\<lparr>movement := Fin 0\<rparr>)"

text \<open>One run of the body of the \<open>while\<close> loop.\<close>

definition iteration ::
  "rounding \<Rightarrow> double array array \<Rightarrow> nat \<Rightarrow> nat \<Rightarrow> nat \<Rightarrow> state \<Rightarrow> error + state"
where
  "iteration rnd data_rows n m k s =
     ebind (snapshot k m s) (\<lambda>s1.
     ebind (reset k m s1) (\<lambda>s2.
     ebind (assign rnd data_rows n m k s2) (\<lambda>s3.
     ebind (update rnd k m s3) (update_movement rnd k m))))"

text \<open>The \<open>while\<close> loop; \<open>None\<close> when it runs forever.\<close>

partial_function (option) k_means_loop ::
  "rounding \<Rightarrow> double array array \<Rightarrow> nat \<Rightarrow> nat \<Rightarrow> nat \<Rightarrow> state \<Rightarrow> (error + state) option"
where
  "k_means_loop rnd data_rows n m k s =
     (if fge (movement s) DBL_EPSILON \<and> iterations s < 2500
      then
        (case iteration rnd data_rows n m k s of
           Inl e \<Rightarrow> Some (Inl e)
         | Inr s' \<Rightarrow> k_means_loop rnd data_rows n m k s')
      else Some (Inr s))"

text \<open>The allocation of \<open>prev_means\<close> and \<open>kernel_follower_sum\<close> before the loop.\<close>

definition alloc_means ::
  "nat \<Rightarrow> nat \<Rightarrow> error + double array array \<times> double array array"
where
  "alloc_means k m =
     forM [0..<k]
       (\<lambda>ki (pm, sm).
          ebind (wr pm ki (malloc m)) (\<lambda>pm'.
          ebind (wr sm ki (malloc m)) (\<lambda>sm'. Inr (pm', sm'))))
       (malloc k, malloc k)"

definition init_state :: "double array array \<Rightarrow> nat \<Rightarrow> nat \<Rightarrow> nat \<Rightarrow> error + state" where
  "init_state ks n m k =
     ebind (alloc_means k m) (\<lambda>(pm, sm).
     Inr \<lparr>kernels = ks, prev_means = pm, kernel_followers = malloc n,
          kernel_follower_count = malloc k, kernel_follower_sum = sm,
          movement = INFINITY, iterations = 0\<rparr>)"

definition k_means ::
  "rounding \<Rightarrow> (nat \<Rightarrow> nat) \<Rightarrow> nat \<Rightarrow> double array array \<Rightarrow> nat \<Rightarrow> nat \<Rightarrow> bool
     \<Rightarrow> (error + nat array) option"
where
  "k_means rnd rng k data_rows n m generate_kernels =
     (case
        (if generate_kernels then Some (generate_mean_kernels rnd data_rows n m k)
         else pick_random_kernels rnd rng data_rows n m k)
      of
        None \<Rightarrow> None
      | Some (Inl e) \<Rightarrow> Some (Inl e)
      | Some (Inr ks) \<Rightarrow>
          (case init_state ks n m k of
             Inl e \<Rightarrow> Some (Inl e)
           | Inr s0 \<Rightarrow>
               (case k_means_loop rnd data_rows n m k s0 of
                  None \<Rightarrow> None
                | Some (Inl e) \<Rightarrow> Some (Inl e)
                | Some (Inr s) \<Rightarrow> Some (Inr (kernel_followers s)))))"

section \<open>Example inputs\<close>

text \<open>Two rows of one column, and the states of the run of \<open>k_means\<close> on them.\<close>

definition two_rows :: "double array array" where
  "two_rows = [Some [Some (Fin 1)], Some [Some (Fin 3)]]"

definition two_rows_start :: state where
  "two_rows_start =
     \<lparr>kernels = two_rows, prev_means = [Some [None], Some [None]],
      kernel_followers = [None, None], kernel_follower_count = [None, None],
      kernel_follower_sum = [Some [None], Some [None]], movement = PInf, iterations = 0\<rparr>"

definition two_rows_final :: state where
  "two_rows_final =
     \<lparr>kernels = two_rows, prev_means = two_rows,
      kernel_followers = [Some 0, Some 1], kernel_follower_count = [Some 1, Some 1],
      kernel_follower_sum = two_rows, movement = Fin 0, iterations = 0\<rparr>"

text \<open>
  Four rows of one column whose values are finite doubles near the top of the range, and
  the states of the run of \<open>k_means\<close> on them.
\<close>

definition big_rows :: "double array array" where
  "big_rows =
     [Some [Some (Fin 0)], Some [Some (Fin (2 ^ 1022))], Some [Some (Fin (2 ^ 1022))],
      Some [Some (Fin (2 ^ 1023))]]"

definition big_rows_start :: state where
  "big_rows_start =
     \<lparr>kernels = [Some [Some (Fin 0)], Some [Some (Fin (2 ^ 1022))]],
      prev_means = [Some [None], Some [None]],
      kernel_followers = [None, None, None, None], kernel_follower_count = [None, None],
      kernel_follower_sum = [Some [None], Some [None]], movement = PInf, iterations = 0\<rparr>"

definition big_rows_first :: state where
  "big_rows_first =
     \<lparr>kernels = [Some [Some (Fin (2 ^ 1022))], Some [Some (Fin (2 ^ 1022))]],
      prev_means = [Some [Some (Fin 0)], Some [Some (Fin (2 ^ 1022))]],
      kernel_followers = [Some 0, Some 1, Some 1, Some 0],
      kernel_follower_count = [Some 2, Some 2],
      kernel_follower_sum = [Some [Some (Fin (2 ^ 1023))], Some [Some (Fin (2 ^ 1023))]],
      movement = PInf, iterations = 0\<rparr>"

definition big_rows_even :: state where
  "big_rows_even =
     \<lparr>kernels = [Some [Some PInf], Some [Some (Fin (2 ^ 1022))]],
      prev_means = [Some [Some (Fin (2 ^ 1022))], Some [Some (Fin (2 ^ 1022))]],
      kernel_followers = [Some 0, Some 0, Some 0, Some 0],
      kernel_follower_count = [Some 4, Some 0],
      kernel_follower_sum = [Some [Some PInf], Some [Some (Fin 0)]],
      movement = PInf, iterations = 0\<rparr>"

definition big_rows_odd :: state where
  "big_rows_odd =
     \<lparr>kernels = [Some [Some (Fin (2 ^ 1022))], Some [Some (Fin (2 ^ 1022))]],
      prev_means = [Some [Some PInf], Some [Some (Fin (2 ^ 1022))]],
      kernel_followers = [Some 0, Some 1, Some 1, Some 0],
      kernel_follower_count = [Some 2, Some 2],
      kernel_follower_sum = [Some [Some (Fin (2 ^ 1023))], Some [Some (Fin (2 ^ 1023))]],
      movement = PInf, iterations = 0\<rparr>"

text \<open>
  A rounding keeps the sign of what it rounds; round-to-nearest does. A value is
  \<open>nonneg\<close> when it is a finite real that is not negative, or plus infinity. \<open>fvec xs\<close> is
  the feature vector whose components are the finite values \<open>xs\<close>.
\<close>

definition nonneg_rounding :: "rounding \<Rightarrow> bool" where
  "nonneg_rounding rnd = (\<forall>x. 0 \<le> x \<longrightarrow> 0 \<le> rnd x)"

fun nonneg :: "double \<Rightarrow> bool" where
  "nonneg (Fin x) = (0 \<le> x)"
| "nonneg PInf = True"
| "nonneg a = False"

definition fvec :: "real list \<Rightarrow> double array" where
  "fvec xs = map (\<lambda>x. Some (Fin x)) xs"

text \<open>The distance that kernel \<open>i\<close> has moved: \<open>distf64v(prev_means[i], kernels[i], m)\<close>.\<close>

definition kernel_distance :: "rounding \<Rightarrow> nat \<Rightarrow> state \<Rightarrow> nat \<Rightarrow> error + double" where
  "kernel_distance rnd m s i =
     ebind (rd (prev_means s) i) (\<lambda>p.
     ebind (rd (kernels s) i) (\<lambda>q. distf64v rnd p q m))"

text \<open>
  A state before the update step in which kernel 0 has two followers, whose sum is 4, and
  kernel 1 has none; and the state after the step.
\<close>

definition lonely :: state where
  "lonely =
     \<lparr>kernels = [Some [Some (Fin 5)], Some [Some (Fin 7)]],
      prev_means = [Some [Some (Fin 5)], Some [Some (Fin 7)]],
      kernel_followers = [Some 0, Some 0], kernel_follower_count = [Some 2, Some 0],
      kernel_follower_sum = [Some [Some (Fin 4)], Some [Some (Fin 0)]],
      movement = PInf, iterations = 0\<rparr>"

definition lonely_updated :: state where
  "lonely_updated = lonely\<lparr>kernels := [Some [Some (Fin 2)], Some [Some (Fin 7)]]\<rparr>"

text \<open>The distance of a row to kernel \<open>i\<close>: \<open>distf64v(row, kernels[i], m)\<close>.\<close>

definition row_distance ::
  "rounding \<Rightarrow> nat \<Rightarrow> double array \<Rightarrow> double array array \<Rightarrow> nat \<Rightarrow> error + double"
where
  "row_distance rnd m row ks i = ebind (rd ks i) (\<lambda>kernel. distf64v rnd row kernel m)"

text \<open>\<open>fmat rows\<close> is the dataset whose rows are the finite feature vectors \<open>rows\<close>.\<close>

definition fmat :: "real list list \<Rightarrow> double array array" where
  "fmat rows = map (\<lambda>r. Some (fvec r)) rows"

text \<open>A dataset of \<open>n\<close> rows of \<open>m\<close> columns.\<close>

definition matrix :: "nat \<Rightarrow> nat \<Rightarrow> real list list \<Rightarrow> bool" where
  "matrix n m rows = (length rows = n \<and> (\<forall>r\<in>set rows. length r = m))"

text \<open>Two rows whose columns are sorted in opposite orders.\<close>

definition crossed_rows :: "real list list" where
  "crossed_rows = [[1, 2], [2, 1]]"

text \<open>
  The same program with its arrays kept in a store, so that two pointers may name the same
  array. An address names an object, an array of cells; a cell holds a double, a pointer
  or a \<open>size_t\<close>. \<open>alloc\<close> is \<open>malloc\<close>: it returns the next unused address. An access
  through an address that names no object, or to a cell of the wrong kind, is the error
  \<open>BadPointer\<close>.
\<close>

datatype cell = Dbl double | Ptr nat | Size nat

type_synonym store = "cell array option list"

definition objs :: "store \<Rightarrow> nat \<Rightarrow> cell array option" where
  "objs h a = (if a < length h then h ! a else None)"

definition brk :: "store \<Rightarrow> nat" where
  "brk h = length h"

definition alloc :: "nat \<Rightarrow> store \<Rightarrow> nat \<times> store" where
  "alloc n h = (brk h, h @ [Some (malloc n)])"

definition release :: "nat \<Rightarrow> store \<Rightarrow> error + store" where
  "release a h =
     (case objs h a of
        None \<Rightarrow> Inl BadPointer
      | Some obj \<Rightarrow> Inr (h[a := None]))"

definition load :: "store \<Rightarrow> nat \<Rightarrow> nat \<Rightarrow> error + cell" where
  "load h a i = (case objs h a of None \<Rightarrow> Inl BadPointer | Some obj \<Rightarrow> rd obj i)"

definition store_cell :: "store \<Rightarrow> nat \<Rightarrow> nat \<Rightarrow> cell \<Rightarrow> error + store" where
  "store_cell h a i c =
     (case objs h a of
        None \<Rightarrow> Inl BadPointer
      | Some obj \<Rightarrow> ebind (wr obj i c) (\<lambda>obj'. Inr (h[a := Some obj'])))"

definition load_d :: "store \<Rightarrow> nat \<Rightarrow> nat \<Rightarrow> error + double" where
  "load_d h a i = ebind (load h a i) (\<lambda>c. case c of Dbl v \<Rightarrow> Inr v | _ \<Rightarrow> Inl BadPointer)"

definition load_p :: "store \<Rightarrow> nat \<Rightarrow> nat \<Rightarrow> error + nat" where
  "load_p h a i = ebind (load h a i) (\<lambda>c. case c of Ptr v \<Rightarrow> Inr v | _ \<Rightarrow> Inl BadPointer)"

definition load_n :: "store \<Rightarrow> nat \<Rightarrow> nat \<Rightarrow> error + nat" where
  "load_n h a i = ebind (load h a i) (\<lambda>c. case c of Size v \<Rightarrow> Inr v | _ \<Rightarrow> Inl BadPointer)"

definition load_d2 :: "store \<Rightarrow> nat \<Rightarrow> nat \<Rightarrow> nat \<Rightarrow> error + double" where
  "load_d2 h a i j = ebind (load_p h a i) (\<lambda>row. load_d h row j)"

definition store_d2 :: "store \<Rightarrow> nat \<Rightarrow> nat \<Rightarrow> nat \<Rightarrow> double \<Rightarrow> error + store" where
  "store_d2 h a i j v = ebind (load_p h a i) (\<lambda>row. store_cell h row j (Dbl v))"

definition distf64v_st :: "rounding \<Rightarrow> store \<Rightarrow> nat \<Rightarrow> nat \<Rightarrow> nat \<Rightarrow> error + double" where
  "distf64v_st rnd h p q m =
     ebind
       (forM [0..<m]
          (\<lambda>i sum.
             ebind (load_d h p i) (\<lambda>pi.
             ebind (load_d h q i) (\<lambda>qi.
             Inr (fadd rnd sum (fmul rnd (fsub rnd pi qi) (fsub rnd pi qi))))))
          (Fin 0))
       (\<lambda>sum.
          if flt sum (Fin 0) then Inl NegativeSum
          else
            (let out = fsqrt rnd sum in
             if fne out out then Inl NanDistance else Inr out))"

definition alloc_rows_st :: "nat \<Rightarrow> nat \<Rightarrow> store \<Rightarrow> error + nat \<times> store" where
  "alloc_rows_st k m h =
     (let (a, h1) = alloc k h in
      ebind
        (forM [0..<k] (\<lambda>i h. let (r, h') = alloc m h in store_cell h' a i (Ptr r)) h1)
        (\<lambda>h2. Inr (a, h2)))"

definition copy_row_st :: "nat \<Rightarrow> nat \<Rightarrow> nat \<Rightarrow> nat \<Rightarrow> nat \<Rightarrow> store \<Rightarrow> error + store" where
  "copy_row_st data_rows row m i ks =
     forM [0..<m] (\<lambda>j h.
       ebind (load_d2 h data_rows row j) (\<lambda>v. store_d2 h ks i j v))"

definition already_seen_st :: "store \<Rightarrow> nat \<Rightarrow> nat \<Rightarrow> nat \<Rightarrow> error + bool" where
  "already_seen_st h previous i row =
     forM [0..<i]
       (\<lambda>ri seen. ebind (load_n h previous ri) (\<lambda>p. Inr (if p = row then True else seen)))
       False"

partial_function (option) pick_row_st ::
  "rounding \<Rightarrow> (nat \<Rightarrow> nat) \<Rightarrow> nat \<Rightarrow> store \<Rightarrow> nat \<Rightarrow> nat \<Rightarrow> nat \<Rightarrow> (error + nat \<times> nat) option"
where
  "pick_row_st rnd rng n h previous i c =
     (case
        ebind
          (to_size_t
             (fmul rnd (fdiv rnd (of_size_t rnd (rng c)) (of_size_t rnd RAND_MAX))
                (of_size_t rnd n)))
          (\<lambda>row. ebind (already_seen_st h previous i row) (\<lambda>seen. Inr (row, seen)))
      of
        Inl e \<Rightarrow> Some (Inl e)
      | Inr (row, seen) \<Rightarrow>
          if \<not> seen then Some (Inr (row, Suc c))
          else pick_row_st rnd rng n h previous i (Suc c))"

definition pick_random_kernels_st ::
  "rounding \<Rightarrow> (nat \<Rightarrow> nat) \<Rightarrow> nat \<Rightarrow> nat \<Rightarrow> nat \<Rightarrow> nat \<Rightarrow> store
     \<Rightarrow> (error + nat \<times> store) option"
where
  "pick_random_kernels_st rnd rng data_rows n m k h =
     (case alloc_rows_st k m h of
        Inl e \<Rightarrow> Some (Inl e)
      | Inr (ks, h1) \<Rightarrow>
          (let (previous, h2) = alloc k h1 in
           case
             forMo [0..<k]
               (\<lambda>i (h, c).
                  case pick_row_st rnd rng n h previous i c of
                    None \<Rightarrow> None
                  | Some (Inl e) \<Rightarrow> Some (Inl e)
                  | Some (Inr (row, c')) \<Rightarrow>
                      Some
                        (ebind (store_cell h previous i (Size row)) (\<lambda>h'.
                         ebind (copy_row_st data_rows row m i ks h') (\<lambda>h''.
                         Inr (h'', c')))))
               (h2, 0)
           of
             None \<Rightarrow> None
           | Some (Inl e) \<Rightarrow> Some (Inl e)
           | Some (Inr (h3, c)) \<Rightarrow> Some (ebind (release previous h3) (\<lambda>h4. Inr (ks, h4)))))"

definition cmpf64v_st :: "store \<Rightarrow> nat \<Rightarrow> nat \<Rightarrow> nat \<Rightarrow> error + int" where
  "cmpf64v_st h a b d =
     ebind (load_d h a d) (\<lambda>x.
     ebind (load_d h b d) (\<lambda>y.
     Inr (if fgt x y then 1 else if flt x y then - 1 else 0)))"

text \<open>
  \<open>qsort_r\<close> on an array of pointers in the store: it reads the \<open>n\<close> pointers, sorts them
  by the comparison function, and writes them back to the same cells.
\<close>

definition qsort_r_st ::
  "store \<Rightarrow> nat \<Rightarrow> nat \<Rightarrow> (store \<Rightarrow> nat \<Rightarrow> nat \<Rightarrow> error + int) \<Rightarrow> error + store"
where
  "qsort_r_st h base n cmp =
     ebind (forM [0..<n] (\<lambda>i ps. ebind (load_p h base i) (\<lambda>p. Inr (ps @ [p]))) []) (\<lambda>ps.
     ebind (sort_by (cmp h) ps) (\<lambda>qs.
     forM [0..<n] (\<lambda>i h. ebind (rd (map Some qs) i) (\<lambda>q. store_cell h base i (Ptr q))) h))"

definition generate_mean_kernels_st ::
  "rounding \<Rightarrow> nat \<Rightarrow> nat \<Rightarrow> nat \<Rightarrow> nat \<Rightarrow> store \<Rightarrow> error + nat \<times> store"
where
  "generate_mean_kernels_st rnd data_rows n m k h =
     (let (cp, h1) = alloc n h in
      ebind
        (forM [0..<n]
           (\<lambda>i h. let (r, h') = alloc m h in
              ebind (store_cell h' cp i (Ptr r)) (copy_row_st data_rows i m i cp))
           h1) (\<lambda>h2.
      ebind (alloc_rows_st k m h2) (\<lambda>(ks, h3).
      (let (pivots, h4) = alloc k h3 in
       ebind
         (forM [0..<k]
            (\<lambda>i h. ebind (pivot_of rnd n k i) (\<lambda>p. store_cell h pivots i (Size p))) h4) (\<lambda>h5.
       ebind
         (forM [0..<m]
            (\<lambda>i h.
               ebind (qsort_r_st h cp n (\<lambda>h a b. cmpf64v_st h a b i)) (\<lambda>h'.
               forM [0..<k]
                 (\<lambda>j h.
                    ebind (load_n h pivots j) (\<lambda>pivot.
                    ebind (load_d2 h cp pivot i) (\<lambda>v. store_d2 h ks j i v)))
                 h'))
            h5) (\<lambda>h6.
       ebind (release pivots h6) (\<lambda>h7.
       ebind (forM [0..<n] (\<lambda>i h. ebind (load_p h cp i) (\<lambda>r. release r h)) h7) (\<lambda>h8.
       ebind (release cp h8) (\<lambda>h9. Inr (ks, h9))))))))))"

text \<open>
  The addresses that the variables of \<open>k_means\<close> hold: the local \<open>kernels\<close> and the four
  global arrays.
\<close>

record arrays =
  kernels_at :: nat
  prev_means_at :: nat
  followers_at :: nat
  count_at :: nat
  sum_at :: nat

definition snapshot_st :: "arrays \<Rightarrow> nat \<Rightarrow> nat \<Rightarrow> store \<Rightarrow> error + store" where
  "snapshot_st a k m =
     forM [0..<k] (\<lambda>ki.
       forM [0..<m] (\<lambda>vi h.
         ebind (load_d2 h (kernels_at a) ki vi) (\<lambda>v. store_d2 h (prev_means_at a) ki vi v)))"

definition reset_st :: "arrays \<Rightarrow> nat \<Rightarrow> nat \<Rightarrow> store \<Rightarrow> error + store" where
  "reset_st a k m =
     forM [0..<k] (\<lambda>ki h.
       ebind (store_cell h (count_at a) ki (Size 0))
         (forM [0..<m] (\<lambda>vi h. store_d2 h (sum_at a) ki vi (Fin 0))))"

definition closest_st ::
  "rounding \<Rightarrow> store \<Rightarrow> nat \<Rightarrow> nat \<Rightarrow> nat \<Rightarrow> nat \<Rightarrow> error + double \<times> nat"
where
  "closest_st rnd h row ks k m =
     forM [0..<k]
       (\<lambda>ki (closest_distance, closest_kernel).
          ebind (load_p h ks ki) (\<lambda>kernel.
          ebind (distf64v_st rnd h row kernel m) (\<lambda>distance.
          Inr (if flt distance closest_distance then (distance, ki)
               else (closest_distance, closest_kernel)))))
       (INFINITY, 0)"

definition assign_row_st ::
  "rounding \<Rightarrow> arrays \<Rightarrow> nat \<Rightarrow> nat \<Rightarrow> nat \<Rightarrow> nat \<Rightarrow> store \<Rightarrow> error + store"
where
  "assign_row_st rnd a data_rows m k ri h =
     ebind (load_p h data_rows ri) (\<lambda>row.
     ebind (closest_st rnd h row (kernels_at a) k m) (\<lambda>(closest_distance, closest_kernel).
     ebind (store_cell h (followers_at a) ri (Size closest_kernel)) (\<lambda>h1.
     ebind (load_n h1 (count_at a) closest_kernel) (\<lambda>c.
     ebind (store_cell h1 (count_at a) closest_kernel (Size (c + 1)))
       (forM [0..<m] (\<lambda>vi h.
          ebind (load_d h row vi) (\<lambda>x.
          ebind (load_d2 h (sum_at a) closest_kernel vi) (\<lambda>acc.
          store_d2 h (sum_at a) closest_kernel vi (fadd rnd acc x)))))))))"

definition update_st :: "rounding \<Rightarrow> arrays \<Rightarrow> nat \<Rightarrow> nat \<Rightarrow> store \<Rightarrow> error + store" where
  "update_st rnd a k m =
     forM [0..<k] (\<lambda>ki.
       forM [0..<m] (\<lambda>vi h.
         ebind (load_n h (count_at a) ki) (\<lambda>c.
         if c \<le> 0 then Inr h
         else
           ebind (load_d2 h (sum_at a) ki vi) (\<lambda>sm.
           store_d2 h (kernels_at a) ki vi (fdiv rnd sm (of_size_t rnd c))))))"

definition update_movement_st ::
  "rounding \<Rightarrow> arrays \<Rightarrow> nat \<Rightarrow> nat \<Rightarrow> store \<Rightarrow> error + double"
where
  "update_movement_st rnd a k m h =
     forM [0..<k]
       (\<lambda>ki mv.
          ebind (load_p h (prev_means_at a) ki) (\<lambda>p.
          ebind (load_p h (kernels_at a) ki) (\<lambda>q.
          ebind (distf64v_st rnd h p q m) (\<lambda>current_movement.
          (let mv' = fadd rnd mv current_movement in
           if fne mv' mv' then Inl NanMovement else Inr mv')))))
       (Fin 0)"

definition iteration_st ::
  "rounding \<Rightarrow> arrays \<Rightarrow> nat \<Rightarrow> nat \<Rightarrow> nat \<Rightarrow> nat \<Rightarrow> store \<Rightarrow> error + store \<times> double"
where
  "iteration_st rnd a data_rows n m k h =
     ebind (snapshot_st a k m h) (\<lambda>h1.
     ebind (reset_st a k m h1) (\<lambda>h2.
     ebind (forM [0..<n] (assign_row_st rnd a data_rows m k) h2) (\<lambda>h3.
     ebind (update_st rnd a k m h3) (\<lambda>h4.
     ebind (update_movement_st rnd a k m h4) (\<lambda>mv. Inr (h4, mv))))))"

partial_function (option) k_means_loop_st ::
  "rounding \<Rightarrow> arrays \<Rightarrow> nat \<Rightarrow> nat \<Rightarrow> nat \<Rightarrow> nat \<Rightarrow> store \<Rightarrow> double \<Rightarrow> nat
     \<Rightarrow> (error + store) option"
where
  "k_means_loop_st rnd a data_rows n m k h mv its =
     (if fge mv DBL_EPSILON \<and> its < 2500
      then
        (case iteration_st rnd a data_rows n m k h of
           Inl e \<Rightarrow> Some (Inl e)
         | Inr (h', mv') \<Rightarrow> k_means_loop_st rnd a data_rows n m k h' mv' its)
      else Some (Inr h))"

definition alloc_globals :: "nat \<Rightarrow> nat \<Rightarrow> nat \<Rightarrow> nat \<Rightarrow> store \<Rightarrow> error + arrays \<times> store" where
  "alloc_globals ks n m k h =
     (let (followers, h1) = alloc n h;
          (count, h2) = alloc k h1;
          (sum, h3) = alloc k h2;
          (prev, h4) = alloc k h3
      in
        ebind
          (forM [0..<k]
             (\<lambda>ki h.
                let (p, h') = alloc m h in
                ebind (store_cell h' prev ki (Ptr p)) (\<lambda>h''.
                let (s, h''') = alloc m h'' in store_cell h''' sum ki (Ptr s)))
             h4)
          (\<lambda>h5.
             Inr (\<lparr>kernels_at = ks, prev_means_at = prev, followers_at = followers,
                   count_at = count, sum_at = sum\<rparr>, h5)))"

definition release_all :: "arrays \<Rightarrow> nat \<Rightarrow> store \<Rightarrow> error + store" where
  "release_all a k h =
     ebind
       (forM [0..<k]
          (\<lambda>ki h.
             ebind (load_p h (prev_means_at a) ki) (\<lambda>p.
             ebind (release p h) (\<lambda>h1.
             ebind (load_p h1 (kernels_at a) ki) (\<lambda>q.
             ebind (release q h1) (\<lambda>h2.
             ebind (load_p h2 (sum_at a) ki) (\<lambda>s. release s h2))))))
          h) (\<lambda>h1.
     ebind (release (prev_means_at a) h1) (\<lambda>h2.
     ebind (release (kernels_at a) h2) (\<lambda>h3.
     ebind (release (count_at a) h3) (release (sum_at a)))))"

definition k_means_st ::
  "rounding \<Rightarrow> (nat \<Rightarrow> nat) \<Rightarrow> nat \<Rightarrow> nat \<Rightarrow> nat \<Rightarrow> nat \<Rightarrow> bool \<Rightarrow> store
     \<Rightarrow> (error + nat \<times> store) option"
where
  "k_means_st rnd rng k data_rows n m generate_kernels h =
     (case
        (if generate_kernels then Some (generate_mean_kernels_st rnd data_rows n m k h)
         else pick_random_kernels_st rnd rng data_rows n m k h)
      of
        None \<Rightarrow> None
      | Some (Inl e) \<Rightarrow> Some (Inl e)
      | Some (Inr (ks, h1)) \<Rightarrow>
          (case alloc_globals ks n m k h1 of
             Inl e \<Rightarrow> Some (Inl e)
           | Inr (a, h2) \<Rightarrow>
               (case k_means_loop_st rnd a data_rows n m k h2 INFINITY 0 of
                  None \<Rightarrow> None
                | Some (Inl e) \<Rightarrow> Some (Inl e)
                | Some (Inr h3) \<Rightarrow>
                    Some (ebind (release_all a k h3) (\<lambda>h4. Inr (followers_at a, h4))))))"


text \<open>
  \<open>keeps B h0 h\<close>: the store \<open>h\<close> holds every object below the address \<open>B\<close> as \<open>h0\<close> does,
  it has handed out the addresses below \<open>B\<close>, and the pointers kept in its objects from \<open>B\<close>
  on name objects from \<open>B\<close> on. \<open>fresh_arrays B a\<close>: the arrays of \<open>k_means\<close> lie from \<open>B\<close> on.
\<close>

definition keeps :: "nat \<Rightarrow> store \<Rightarrow> store \<Rightarrow> bool" where
  "keeps B h0 h =
     (B \<le> brk h \<and> (\<forall>a<B. objs h a = objs h0 a) \<and>
      (\<forall>a obj i p. B \<le> a \<longrightarrow> objs h a = Some obj \<longrightarrow> i < length obj \<longrightarrow>
         obj ! i = Some (Ptr p) \<longrightarrow> B \<le> p))"

definition fresh_arrays :: "nat \<Rightarrow> arrays \<Rightarrow> bool" where
  "fresh_arrays B a =
     (B \<le> kernels_at a \<and> B \<le> prev_means_at a \<and> B \<le> followers_at a \<and>
      B \<le> count_at a \<and> B \<le> sum_at a)"

definition two_rows_store :: store where
  "two_rows_store =
     [Some [Some (Ptr 1), Some (Ptr 2)], Some [Some (Dbl (Fin 1))], Some [Some (Dbl (Fin 3))]]"

definition two_rows_store_kernels :: store where
  "two_rows_store_kernels =
     two_rows_store @
     [None, None, None,
      Some [Some (Ptr 7), Some (Ptr 8)], Some [Some (Dbl (Fin 1))], Some [Some (Dbl (Fin 3))],
      None]"

definition two_rows_arrays :: arrays where
  "two_rows_arrays =
     \<lparr>kernels_at = 6, prev_means_at = 13, followers_at = 10, count_at = 11, sum_at = 12\<rparr>"

definition two_rows_store_start :: store where
  "two_rows_store_start =
     two_rows_store_kernels @
     [Some [None, None], Some [None, None],
      Some [Some (Ptr 15), Some (Ptr 17)], Some [Some (Ptr 14), Some (Ptr 16)],
      Some [None], Some [None], Some [None], Some [None]]"

definition two_rows_store_loop :: store where
  "two_rows_store_loop =
     two_rows_store_kernels @
     [Some [Some (Size 0), Some (Size 1)], Some [Some (Size 1), Some (Size 1)],
      Some [Some (Ptr 15), Some (Ptr 17)], Some [Some (Ptr 14), Some (Ptr 16)],
      Some [Some (Dbl (Fin 1))], Some [Some (Dbl (Fin 1))],
      Some [Some (Dbl (Fin 3))], Some [Some (Dbl (Fin 3))]]"

definition two_rows_store_final :: store where
  "two_rows_store_final =
     two_rows_store @
     [None, None, None, None, None, None, None,
      Some [Some (Size 0), Some (Size 1)], None, None, None, None, None, None, None]"

text \<open>
  The Euclidean distance of two vectors of reals as the specification has it: the square
  root of the sum of the squared differences of their components.
\<close>

definition sum_sq :: "real list \<Rightarrow> real list \<Rightarrow> real" where
  "sum_sq xs ys = sum_list (map (\<lambda>(x, y). (x - y) * (x - y)) (zip xs ys))"

definition euclidean :: "real list \<Rightarrow> real list \<Rightarrow> real" where
  "euclidean xs ys = sqrt (sum_sq xs ys)"

text \<open>
  A state before the assignment of the first row of \<open>two_rows\<close>, whose value is 1, with
  kernels at 4, 2 and 2: the last two are at the same distance from the row, the first is
  farther. And the state after the assignment of that row.
\<close>

definition tied :: state where
  "tied =
     \<lparr>kernels = fmat [[4], [2], [2]], prev_means = fmat [[4], [2], [2]],
      kernel_followers = [None, None], kernel_follower_count = [Some 0, Some 0, Some 0],
      kernel_follower_sum = fmat [[0], [0], [0]], movement = PInf, iterations = 0\<rparr>"

definition tied_assigned :: state where
  "tied_assigned =
     tied\<lparr>kernel_followers := [Some 1, None],
          kernel_follower_count := [Some 0, Some 1, Some 0],
          kernel_follower_sum := fmat [[0], [1], [0]]\<rparr>"

text \<open>
  The state of the first pass over \<open>big_rows\<close> before the assignment of its last row
  \<open>2^1023\<close>, with kernels at 0 and \<open>2^1022\<close>; and the state after that assignment.
\<close>

definition far :: state where
  "far =
     \<lparr>kernels = fmat [[0], [2 ^ 1022]], prev_means = fmat [[0], [2 ^ 1022]],
      kernel_followers = [Some 0, Some 1, Some 1, None],
      kernel_follower_count = [Some 1, Some 2],
      kernel_follower_sum = fmat [[0], [2 ^ 1023]], movement = PInf, iterations = 0\<rparr>"

definition far_assigned :: state where
  "far_assigned =
     far\<lparr>kernel_followers := [Some 0, Some 1, Some 1, Some 0],
         kernel_follower_count := [Some 2, Some 2],
         kernel_follower_sum := fmat [[2 ^ 1023], [2 ^ 1023]]\<rparr>"

text \<open>
  The rounding of IEEE 754 binary64, to nearest with ties to even. A real \<open>x\<close> with
  \<open>2^e \<le> |x| < 2^(e+1)\<close> has the exponent \<open>expo |x| = e\<close> and is rounded to the nearest
  multiple of \<open>2^(e-52)\<close>, so that 53 bits are kept; below the normal range, where
  \<open>e < -1022\<close>, it is rounded to a multiple of \<open>2^(-1074)\<close>. Of two nearest multiples the
  even one is taken. Overflow is left to \<open>fin\<close>.
\<close>

definition round_even :: "real \<Rightarrow> int" where
  "round_even x =
     (let f = \<lfloor>x\<rfloor>; r = x - of_int f in
      if r < 1 / 2 then f else if 1 / 2 < r then f + 1 else if even f then f else f + 1)"

function expo :: "real \<Rightarrow> int" where
  "expo x =
     (if x \<le> 0 then 0
      else if 2 \<le> x then expo (x / 2) + 1
      else if x < 1 then expo (2 * x) - 1
      else 0)"
  by pat_completeness auto
termination
proof (relation "measure (\<lambda>x. if 1 \<le> x then nat \<lfloor>log 2 x\<rfloor> else nat \<lceil>- log 2 x\<rceil>)")
  show "wf (measure (\<lambda>x. if 1 \<le> x then nat \<lfloor>log 2 x\<rfloor> else nat \<lceil>- log 2 x\<rceil>))" by simp
next
  fix x :: real
  assume "\<not> x \<le> 0" and x: "2 \<le> x"
  have "log 2 (x / 2) = log 2 x - 1" using x by (simp add: log_divide)
  moreover have "1 \<le> log 2 x" using x by (simp add: le_log_iff)
  then have "1 \<le> \<lfloor>log 2 x\<rfloor>" by (simp add: le_floor_iff)
  ultimately show "(x / 2, x) \<in> measure (\<lambda>x. if 1 \<le> x then nat \<lfloor>log 2 x\<rfloor> else nat \<lceil>- log 2 x\<rceil>)"
    using x by simp
next
  fix x :: real
  assume pos: "\<not> x \<le> 0" and "\<not> 2 \<le> x" and x: "x < 1"
  have l: "log 2 (2 * x) = log 2 x + 1" using pos by (simp add: log_mult)
  have neg: "log 2 x < 0" using pos x by simp
  then have c: "1 \<le> \<lceil>- log 2 x\<rceil>" by (simp add: le_ceiling_iff)
  show "(2 * x, x) \<in> measure (\<lambda>x. if 1 \<le> x then nat \<lfloor>log 2 x\<rfloor> else nat \<lceil>- log 2 x\<rceil>)"
  proof (cases "1 \<le> 2 * x")
    case True
    have "log 2 (2 * x) < 1" using pos x by (simp add: log_less_iff)
    moreover have "0 \<le> log 2 (2 * x)" using True by simp
    ultimately have "\<lfloor>log 2 (2 * x)\<rfloor> = 0" by (simp add: floor_eq_iff)
    then show ?thesis using True x c by simp
  next
    case False
    then show ?thesis using x c l by simp
  qed
qed

declare expo.simps [simp del]

definition binary64 :: rounding where
  "binary64 x =
     (let u = 2 powi (max (expo \<bar>x\<bar>) (- 1022) - 52) in of_int (round_even (x / u)) * u)"

text \<open>
  What the bounds on the pivot index need of a rounding: it leaves the integers below
  \<open>2^53\<close> as they are, and in the normal range its relative error is at most \<open>2^(-53)\<close>.
\<close>

definition faithful :: "rounding \<Rightarrow> bool" where
  "faithful rnd =
     ((\<forall>i::nat. i < 2 ^ 53 \<longrightarrow> rnd (real i) = real i) \<and>
      (\<forall>x. 2 powi (- 1022) \<le> \<bar>x\<bar> \<longrightarrow> \<bar>rnd x - x\<bar> \<le> \<bar>x\<bar> / 2 ^ 53))"

text \<open>Twenty-two rows of one column, holding 0 to 21.\<close>

definition ramp :: "real list list" where
  "ramp = map (\<lambda>i. [real i]) [0..<22]"

section \<open>Results and loops\<close>

lemma ebind_Inl [simp]: "ebind (Inl e) f = Inl e"
  by (simp add: ebind_def)

lemma ebind_Inr [simp]: "ebind (Inr x) f = f x"
  by (simp add: ebind_def)

lemma ebind_eq_Inr: "ebind r f = Inr y \<longleftrightarrow> (\<exists>x. r = Inr x \<and> f x = Inr y)"
  by (cases r) auto

lemma rd_eq_Inr: "rd a i = Inr v \<longleftrightarrow> i < length a \<and> a ! i = Some v"
  by (auto simp: rd_def split: option.splits)

lemma wr_eq_Inr: "wr a i v = Inr a' \<longleftrightarrow> i < length a \<and> a' = a[i := Some v]"
  by (auto simp: wr_def)

lemma rd2_eq_Inr:
  "rd2 a i j = Inr v \<longleftrightarrow>
     (\<exists>row. i < length a \<and> a ! i = Some row \<and> j < length row \<and> row ! j = Some v)"
  by (auto simp: rd2_def ebind_eq_Inr rd_eq_Inr)

lemma wr2_eq_Inr:
  "wr2 a i j v = Inr a' \<longleftrightarrow>
     (\<exists>row. i < length a \<and> a ! i = Some row \<and> j < length row \<and>
            a' = a[i := Some (row[j := Some v])])"
  by (auto simp: wr2_def ebind_eq_Inr rd_eq_Inr wr_eq_Inr)

lemma forM_append: "forM (xs @ ys) f s = ebind (forM xs f s) (forM ys f)"
proof (induction xs arbitrary: s)
  case Nil
  show ?case by simp
next
  case (Cons x xs)
  show ?case by (cases "f x s") (simp_all add: Cons.IH)
qed

lemma ebind_return [simp]: "ebind r Inr = r"
  by (cases r) simp_all

lemma forM_Nil_fun [simp]: "forM [] f = Inr"
  by (rule ext) simp

lemma forM_single: "forM [i] f s = f i s"
  by simp

lemma forM_upt_Suc: "forM [0..<Suc n] f s = ebind (forM [0..<n] f s) (f n)"
  by (cases "forM [0..<n] f s") (simp_all add: forM_append forM_single)

text \<open>An invariant of the loop body holds after the loop.\<close>

lemma forM_inv:
  assumes "forM is f s = Inr s'" and "I s"
    and "\<And>i t t'. i \<in> set is \<Longrightarrow> I t \<Longrightarrow> f i t = Inr t' \<Longrightarrow> I t'"
  shows "I s'"
  using assms
proof (induction "is" arbitrary: s)
  case Nil
  then show ?case by simp
next
  case (Cons i "is")
  from Cons.prems(1) obtain t where t: "f i s = Inr t" and rest: "forM is f t = Inr s'"
    by (auto simp: ebind_eq_Inr)
  have "I t" using Cons.prems(2,3) t by auto
  then show ?case using Cons.IH [OF rest] Cons.prems(3) by auto
qed

text \<open>An invariant that depends on the loop index.\<close>

lemma forM_upt_inv:
  assumes "forM [0..<n] f s = Inr s'" and "P 0 s"
    and "\<And>i t t'. i < n \<Longrightarrow> P i t \<Longrightarrow> f i t = Inr t' \<Longrightarrow> P (Suc i) t'"
  shows "P n s'"
  using assms
proof (induction n arbitrary: s')
  case 0
  then show ?case by simp
next
  case (Suc n)
  from Suc.prems(1) obtain t where t: "forM [0..<n] f s = Inr t" and last: "f n t = Inr s'"
    unfolding forM_upt_Suc by (auto simp: ebind_eq_Inr)
  have "P n t" using Suc.IH [OF t Suc.prems(2)] Suc.prems(3) by auto
  then show ?case using Suc.prems(3) [of n t s'] last by auto
qed

section \<open>What each step of the loop body changes\<close>

lemma snapshot_frame:
  assumes "snapshot k m s = Inr s'"
  shows "\<exists>pm. s' = s\<lparr>prev_means := pm\<rparr>"
proof -
  have inner: "\<exists>pm. t' = s\<lparr>prev_means := pm\<rparr>"
    if "forM [0..<m] (\<lambda>vi s.
         ebind (rd2 (kernels s) ki vi) (\<lambda>v.
         ebind (wr2 (prev_means s) ki vi v) (\<lambda>pm.
         Inr (s\<lparr>prev_means := pm\<rparr>)))) t = Inr t'"
      and "\<exists>pm. t = s\<lparr>prev_means := pm\<rparr>" for ki t t'
    using that by (rule forM_inv) (auto simp: ebind_eq_Inr)
  show ?thesis
    using assms unfolding snapshot_def
    by (rule forM_inv) (auto intro: inner [where t = s] inner simp: exI [where x = "prev_means s"])
qed

lemma add_row_frame:
  assumes "add_row rnd row ck m s = Inr s'"
  shows "\<exists>sm. s' = s\<lparr>kernel_follower_sum := sm\<rparr>"
  using assms unfolding add_row_def
  by (rule forM_inv) (auto simp: ebind_eq_Inr exI [where x = "kernel_follower_sum s"])

lemma reset_frame:
  assumes "reset k m s = Inr s'"
  shows "kernels s' = kernels s \<and> prev_means s' = prev_means s \<and>
         kernel_followers s' = kernel_followers s \<and> movement s' = movement s \<and>
         iterations s' = iterations s \<and>
         length (kernel_follower_count s') = length (kernel_follower_count s)"
proof -
  let ?I = "\<lambda>t. kernels t = kernels s \<and> prev_means t = prev_means s \<and>
         kernel_followers t = kernel_followers s \<and> movement t = movement s \<and>
         iterations t = iterations s \<and>
         length (kernel_follower_count t) = length (kernel_follower_count s)"
  have inner: "?I t'"
    if "forM [0..<m] (\<lambda>vi s.
            ebind (wr2 (kernel_follower_sum s) ki vi (Fin 0)) (\<lambda>sm.
            Inr (s\<lparr>kernel_follower_sum := sm\<rparr>))) t = Inr t'"
      and "?I t" for ki t t'
    using that by (rule forM_inv) (auto simp: ebind_eq_Inr)
  have "?I s" by simp
  with assms show ?thesis
    unfolding reset_def
  proof (rule forM_inv)
    fix i t t'
    assume "?I t" and step: "ebind (wr (kernel_follower_count t) i 0)
          (\<lambda>cnt. forM [0..<m] (\<lambda>vi s.
            ebind (wr2 (kernel_follower_sum s) i vi (Fin 0)) (\<lambda>sm.
            Inr (s\<lparr>kernel_follower_sum := sm\<rparr>))) (t\<lparr>kernel_follower_count := cnt\<rparr>)) = Inr t'"
    from step obtain cnt where cnt: "wr (kernel_follower_count t) i 0 = Inr cnt"
      and rest: "forM [0..<m] (\<lambda>vi s.
            ebind (wr2 (kernel_follower_sum s) i vi (Fin 0)) (\<lambda>sm.
            Inr (s\<lparr>kernel_follower_sum := sm\<rparr>))) (t\<lparr>kernel_follower_count := cnt\<rparr>) = Inr t'"
      by (auto simp: ebind_eq_Inr)
    have "?I (t\<lparr>kernel_follower_count := cnt\<rparr>)"
      using \<open>?I t\<close> cnt by (auto simp: wr_eq_Inr)
    then show "?I t'" by (rule inner [OF rest])
  qed
qed

lemma update_kernel_frame:
  assumes "update_kernel rnd m ki s = Inr s'"
  shows "\<exists>ks. s' = s\<lparr>kernels := ks\<rparr>"
  using assms unfolding update_kernel_def
  by (rule forM_inv) (auto simp: ebind_eq_Inr exI [where x = "kernels s"] split: if_splits)

lemma update_frame:
  assumes "update rnd k m s = Inr s'"
  shows "\<exists>ks. s' = s\<lparr>kernels := ks\<rparr>"
  using assms unfolding update_def
  by (rule forM_inv) (auto dest!: update_kernel_frame simp: exI [where x = "kernels s"])

lemma update_movement_frame:
  assumes "update_movement rnd k m s = Inr s'"
  shows "\<exists>mv. s' = s\<lparr>movement := mv\<rparr>"
  using assms unfolding update_movement_def
  by (rule forM_inv) (auto simp: ebind_eq_Inr Let_def split: if_splits)

lemma assign_row_followers:
  assumes "assign_row rnd data_rows m k ri s = Inr s'"
  shows "\<exists>ck. ck < length (kernel_follower_count s) \<and> ri < length (kernel_followers s) \<and>
           kernel_followers s' = (kernel_followers s)[ri := Some ck] \<and>
           length (kernel_follower_count s') = length (kernel_follower_count s) \<and>
           kernels s' = kernels s \<and> prev_means s' = prev_means s \<and>
           movement s' = movement s \<and> iterations s' = iterations s"
proof -
  from assms obtain row cd ck kf c cnt where
    kf: "wr (kernel_followers s) ri ck = Inr kf" and
    c: "rd (kernel_follower_count s) ck = Inr c" and
    cnt: "wr (kernel_follower_count s) ck (c + 1) = Inr cnt" and
    add: "add_row rnd row ck m (s\<lparr>kernel_followers := kf, kernel_follower_count := cnt\<rparr>) = Inr s'"
    unfolding assign_row_def by (auto simp: ebind_eq_Inr)
  from add_row_frame [OF add] obtain sm where
    s': "s' = s\<lparr>kernel_followers := kf, kernel_follower_count := cnt, kernel_follower_sum := sm\<rparr>"
    by auto
  show ?thesis
    using kf c cnt by (auto simp: s' wr_eq_Inr rd_eq_Inr)
qed

lemma assign_followers:
  assumes "assign rnd data_rows n m k s = Inr s'"
  shows "length (kernel_followers s') = length (kernel_followers s) \<and>
         length (kernel_follower_count s') = length (kernel_follower_count s) \<and>
         (\<forall>r<n. \<exists>v<length (kernel_follower_count s). kernel_followers s' ! r = Some v) \<and>
         kernels s' = kernels s \<and> prev_means s' = prev_means s \<and>
         movement s' = movement s \<and> iterations s' = iterations s"
proof -
  let ?P = "\<lambda>i t. length (kernel_followers t) = length (kernel_followers s) \<and>
         length (kernel_follower_count t) = length (kernel_follower_count s) \<and>
         (\<forall>r<i. \<exists>v<length (kernel_follower_count s). kernel_followers t ! r = Some v) \<and>
         kernels t = kernels s \<and> prev_means t = prev_means s \<and>
         movement t = movement s \<and> iterations t = iterations s"
  have "?P n s'"
    using assms unfolding assign_def
  proof (rule forM_upt_inv [where P = ?P])
    show "?P 0 s" by simp
  next
    fix i t t'
    assume "i < n" and P: "?P i t" and step: "assign_row rnd data_rows m k i t = Inr t'"
    from assign_row_followers [OF step] obtain ck where
      ck: "ck < length (kernel_follower_count t)" "i < length (kernel_followers t)"
        "kernel_followers t' = (kernel_followers t)[i := Some ck]"
        "length (kernel_follower_count t') = length (kernel_follower_count t)"
        "kernels t' = kernels t" "prev_means t' = prev_means t"
        "movement t' = movement t" "iterations t' = iterations t"
      by auto
    have "\<exists>v<length (kernel_follower_count s). kernel_followers t' ! r = Some v"
      if "r < Suc i" for r
    proof (cases "r = i")
      case True
      then show ?thesis using ck P by simp
    next
      case False
      then have "r < i" using that by simp
      then show ?thesis using ck P False by simp
    qed
    then show "?P (Suc i) t'" using ck P by simp
  qed
  then show ?thesis by simp
qed

lemma iteration_followers:
  assumes "iteration rnd data_rows n m k s = Inr s'"
  shows "length (kernel_followers s') = length (kernel_followers s) \<and>
         length (kernel_follower_count s') = length (kernel_follower_count s) \<and>
         (\<forall>r<n. \<exists>v<length (kernel_follower_count s). kernel_followers s' ! r = Some v) \<and>
         iterations s' = iterations s"
proof -
  from assms obtain s1 s2 s3 s4 where
    1: "snapshot k m s = Inr s1" and 2: "reset k m s1 = Inr s2" and
    3: "assign rnd data_rows n m k s2 = Inr s3" and 4: "update rnd k m s3 = Inr s4" and
    5: "update_movement rnd k m s4 = Inr s'"
    unfolding iteration_def by (auto simp: ebind_eq_Inr)
  from snapshot_frame [OF 1] obtain pm where s1: "s1 = s\<lparr>prev_means := pm\<rparr>" by auto
  note r = reset_frame [OF 2]
  note a = assign_followers [OF 3]
  from update_frame [OF 4] obtain ks where s4: "s4 = s3\<lparr>kernels := ks\<rparr>" by auto
  from update_movement_frame [OF 5] obtain mv where s': "s' = s4\<lparr>movement := mv\<rparr>" by auto
  show ?thesis using r a by (simp add: s1 s4 s')
qed

lemma k_means_loop_followers:
  assumes "k_means_loop rnd data_rows n m k s = Some (Inr s')"
    and "(fge (movement s) DBL_EPSILON \<and> iterations s < 2500) \<or>
           (\<forall>r<n. \<exists>v<length (kernel_follower_count s). kernel_followers s ! r = Some v)"
  shows "length (kernel_followers s') = length (kernel_followers s) \<and>
         (\<forall>r<n. \<exists>v<length (kernel_follower_count s). kernel_followers s' ! r = Some v)"
proof -
  let ?P = "\<lambda>(rnd :: rounding) (data_rows :: double array array) (n :: nat) (m :: nat) (k :: nat)
      (s :: state) (res :: error + state).
      \<forall>s'. res = Inr s' \<longrightarrow>
         (fge (movement s) DBL_EPSILON \<and> iterations s < 2500) \<or>
           (\<forall>r<n. \<exists>v<length (kernel_follower_count s). kernel_followers s ! r = Some v) \<longrightarrow>
         length (kernel_followers s') = length (kernel_followers s) \<and>
         (\<forall>r<n. \<exists>v<length (kernel_follower_count s). kernel_followers s' ! r = Some v)"
  have "?P rnd data_rows n m k s (Inr s')"
  proof (rule k_means_loop.raw_induct [where P = ?P, OF _ assms(1)])
    fix loop rnd data_rows n m k s res
    assume IH: "\<And>rnd data_rows n m k s res.
        loop rnd data_rows n m k s = Some res \<Longrightarrow> ?P rnd data_rows n m k s res"
      and body: "(if fge (movement s) DBL_EPSILON \<and> iterations s < 2500
          then case iteration rnd data_rows n m k s of
                 Inl e \<Rightarrow> Some (Inl e)
               | Inr s' \<Rightarrow> loop rnd data_rows n m k s'
          else Some (Inr s)) = Some res"
    show "?P rnd data_rows n m k s res"
    proof (cases "fge (movement s) DBL_EPSILON \<and> iterations s < 2500")
      case False
      then show ?thesis using body by auto
    next
      case True
      show ?thesis
      proof (cases "iteration rnd data_rows n m k s")
        case (Inl e)
        then show ?thesis using body True by auto
      next
        case (Inr t)
        then have rest: "loop rnd data_rows n m k t = Some res" using body True by simp
        note it = iteration_followers [OF Inr]
        from IH [OF rest] it show ?thesis by auto
      qed
    qed
  qed
  then show ?thesis using assms(2) by blast
qed

lemma init_state_fields:
  assumes "init_state ks n m k = Inr s0"
  shows "kernels s0 = ks \<and> kernel_followers s0 = malloc n \<and>
         kernel_follower_count s0 = malloc k \<and> movement s0 = INFINITY \<and> iterations s0 = 0"
  using assms unfolding init_state_def by (auto simp: ebind_eq_Inr)

lemma loop_entered:
  "fge INFINITY DBL_EPSILON"
  by (simp add: INFINITY_def DBL_EPSILON_def)

section \<open>The assignment array\<close>

text \<open>
  Claim C1. Every value of the assignment array that \<open>k_means\<close> returns lies in \<open>[0,k)\<close>:
  whenever the run returns an array, the array has \<open>n\<close> cells and every cell holds a kernel
  index below \<open>k\<close>. This holds for every rounding, both initialisation strategies and every
  input, so in particular for the valid ones (\<open>k \<le> n\<close>, \<open>m \<ge> 1\<close>, \<open>n \<ge> 1\<close>, finite data).
  With \<open>k = 0\<close> and \<open>n \<ge> 1\<close> the run reads \<open>kernel_follower_count[0]\<close> out of bounds and
  returns no array.
\<close>

theorem k_means_assignment_in_range:
  assumes "k_means rnd rng k data_rows n m generate_kernels = Some (Inr a)"
  shows "length a = n \<and> (\<forall>r<n. \<exists>v<k. a ! r = Some v)"
proof -
  from assms obtain ks s0 s where
    init: "init_state ks n m k = Inr s0" and
    loop: "k_means_loop rnd data_rows n m k s0 = Some (Inr s)" and
    a: "a = kernel_followers s"
    unfolding k_means_def by (auto split: option.splits sum.splits if_splits)
  note f = init_state_fields [OF init]
  have "fge (movement s0) DBL_EPSILON \<and> iterations s0 < 2500"
    using f loop_entered by simp
  from k_means_loop_followers [OF loop] this show ?thesis
    using f by (simp add: a malloc_def)
qed

section \<open>Running the model on concrete inputs\<close>

lemma replicate_numerals:
  "replicate 1 x = [x]" "replicate 2 x = [x, x]" "replicate 3 x = [x, x, x]"
  "replicate 4 x = [x, x, x, x]"
  by (simp_all add: numeral_eq_Suc)

lemmas run_simps =
  upt_rec distf64v_def ebind_def rd_def wr_def rd2_def wr2_def fsub_def fin_def exact_def
  DBL_MAX_def fne_def Let_def malloc_def of_size_t_def INFINITY_def DBL_EPSILON_def fgt_def
  replicate_numerals

lemmas init_simps =
  generate_mean_kernels_def copy_data_def copy_row_def alloc_rows_def make_pivots_def
  pivot_of_def read_pivots_def qsort_r_def cmpf64v_def init_state_def alloc_means_def

lemmas iteration_simps =
  iteration_def snapshot_def reset_def assign_def assign_row_def closest_def add_row_def
  update_def update_kernel_def update_movement_def

lemma k_means_loop_continue:
  assumes "fge (movement s) DBL_EPSILON" and "iterations s < 2500"
    and "iteration rnd data_rows n m k s = Inr s'"
  shows "k_means_loop rnd data_rows n m k s = k_means_loop rnd data_rows n m k s'"
  by (subst k_means_loop.simps) (simp add: assms)

lemma k_means_loop_stop:
  assumes "\<not> fge (movement s) DBL_EPSILON"
  shows "k_means_loop rnd data_rows n m k s = Some (Inr s)"
  by (subst k_means_loop.simps) (simp add: assms)

lemma k_means_generate:
  assumes "generate_mean_kernels rnd data_rows n m k = Inr ks"
    and "init_state ks n m k = Inr s0"
  shows "k_means rnd rng k data_rows n m True =
           (case k_means_loop rnd data_rows n m k s0 of
              None \<Rightarrow> None
            | Some (Inl e) \<Rightarrow> Some (Inl e)
            | Some (Inr s) \<Rightarrow> Some (Inr (kernel_followers s)))"
  by (simp add: k_means_def assms)

lemma two_rows_kernels: "generate_mean_kernels exact two_rows 2 1 2 = Inr two_rows"
  by (simp add: init_simps two_rows_def run_simps)

lemma two_rows_init: "init_state two_rows 2 1 2 = Inr two_rows_start"
  by (simp add: init_simps two_rows_start_def run_simps)

lemma two_rows_iteration: "iteration exact two_rows 2 1 2 two_rows_start = Inr two_rows_final"
  by (simp add: iteration_simps two_rows_start_def two_rows_final_def two_rows_def run_simps)

lemma two_rows_run: "k_means exact rng 2 two_rows 2 1 True = Some (Inr [Some 0, Some 1])"
proof -
  have "k_means_loop exact two_rows 2 1 2 two_rows_start =
        k_means_loop exact two_rows 2 1 2 two_rows_final"
    by (rule k_means_loop_continue [OF _ _ two_rows_iteration])
       (simp_all add: two_rows_start_def DBL_EPSILON_def)
  also have "\<dots> = Some (Inr two_rows_final)"
    by (rule k_means_loop_stop) (simp add: two_rows_final_def DBL_EPSILON_def)
  finally show ?thesis
    unfolding k_means_generate [OF two_rows_kernels two_rows_init]
    by (simp add: two_rows_final_def)
qed

theorem k_means_assignment_in_range_witness:
  "k_means exact (\<lambda>c. 0) 2 two_rows 2 1 True = Some (Inr [Some 0, Some 1]) \<and>
   length [Some (0::nat), Some 1] = 2 \<and>
   (\<exists>v<2. [Some (0::nat), Some 1] ! 0 = Some v) \<and>
   (\<exists>v<2. [Some (0::nat), Some 1] ! 1 = Some v)"
  using k_means_assignment_in_range [OF two_rows_run [of "\<lambda>c. 0"]] two_rows_run [of "\<lambda>c. 0"]
  by simp

section \<open>The first iteration\<close>

text \<open>
  Claim C10. \<open>k_means\<close> runs the loop body at least once before it returns: \<open>movement\<close>
  starts at \<open>INFINITY\<close>, which is at least \<open>DBL_EPSILON\<close>, and \<open>iterations\<close> starts at
  \<open>0\<close>, so a run that returns is one full iteration from the initial state followed by
  the rest of the loop. That first iteration writes all \<open>n\<close> cells of the assignment
  array, so no cell of the returned array is left unwritten, whatever the initial kernels
  are.
\<close>

theorem k_means_first_iteration:
  assumes "k_means rnd rng k data_rows n m generate_kernels = Some (Inr a)"
  shows "\<exists>ks s0 s1 s.
           (if generate_kernels then Some (generate_mean_kernels rnd data_rows n m k)
            else pick_random_kernels rnd rng data_rows n m k) = Some (Inr ks) \<and>
           init_state ks n m k = Inr s0 \<and>
           movement s0 = INFINITY \<and> fge (movement s0) DBL_EPSILON \<and> iterations s0 < 2500 \<and>
           iteration rnd data_rows n m k s0 = Inr s1 \<and>
           k_means_loop rnd data_rows n m k s1 = Some (Inr s) \<and>
           a = kernel_followers s \<and>
           (\<forall>r<n. kernel_followers s1 ! r \<noteq> None) \<and> (\<forall>r<n. a ! r \<noteq> None)"
proof -
  from assms obtain ks s0 s where
    ks: "(if generate_kernels then Some (generate_mean_kernels rnd data_rows n m k)
            else pick_random_kernels rnd rng data_rows n m k) = Some (Inr ks)" and
    init: "init_state ks n m k = Inr s0" and
    loop: "k_means_loop rnd data_rows n m k s0 = Some (Inr s)" and
    a: "a = kernel_followers s"
    unfolding k_means_def by (auto split: option.splits sum.splits if_splits)
  note f = init_state_fields [OF init]
  have cond: "fge (movement s0) DBL_EPSILON \<and> iterations s0 < 2500"
    using f loop_entered by simp
  from loop cond obtain s1 where
    it: "iteration rnd data_rows n m k s0 = Inr s1" and
    rest: "k_means_loop rnd data_rows n m k s1 = Some (Inr s)"
    by (subst (asm) k_means_loop.simps) (auto split: sum.splits)
  from iteration_followers [OF it] have first: "\<forall>r<n. kernel_followers s1 ! r \<noteq> None"
    by auto
  from k_means_loop_followers [OF loop] cond have "\<forall>r<n. a ! r \<noteq> None"
    by (auto simp: a)
  with ks init f cond it rest a first show ?thesis by blast
qed

theorem k_means_first_iteration_witness:
  "k_means exact (\<lambda>c. 0) 2 two_rows 2 1 True = Some (Inr [Some 0, Some 1]) \<and>
   (\<exists>ks s0 s1 s.
      Some (generate_mean_kernels exact two_rows 2 1 2) = Some (Inr ks) \<and>
      init_state ks 2 1 2 = Inr s0 \<and>
      movement s0 = INFINITY \<and> fge (movement s0) DBL_EPSILON \<and> iterations s0 < 2500 \<and>
      iteration exact two_rows 2 1 2 s0 = Inr s1 \<and>
      k_means_loop exact two_rows 2 1 2 s1 = Some (Inr s) \<and>
      [Some 0, Some 1] = kernel_followers s \<and>
      kernel_followers s1 ! 0 \<noteq> None \<and> kernel_followers s1 ! 1 \<noteq> None)"
proof -
  note run = two_rows_run [of "\<lambda>c. 0"]
  from k_means_first_iteration [OF run] obtain ks s0 s1 s where
    "Some (generate_mean_kernels exact two_rows 2 1 2) = Some (Inr ks)"
    "init_state ks 2 1 2 = Inr s0"
    "movement s0 = INFINITY" "fge (movement s0) DBL_EPSILON" "iterations s0 < 2500"
    "iteration exact two_rows 2 1 2 s0 = Inr s1"
    "k_means_loop exact two_rows 2 1 2 s1 = Some (Inr s)"
    "[Some 0, Some 1] = kernel_followers s"
    "\<forall>r<2. kernel_followers s1 ! r \<noteq> None"
    by auto
  then show ?thesis using run by (intro conjI exI [where x = ks] exI [where x = s0] exI [where x = s1] exI [where x = s]) auto
qed

section \<open>The iteration counter\<close>

text \<open>
  The loop body never changes \<open>iterations\<close>: the counter that the loop condition compares
  with 2500 stays at 0.
\<close>

lemma iteration_keeps_counter:
  assumes "iteration rnd data_rows n m k s = Inr s'"
  shows "iterations s' = iterations s"
  using iteration_followers [OF assms] by simp

lemma big_rows_kernels:
  "generate_mean_kernels exact big_rows 4 1 2 =
     Inr [Some [Some (Fin 0)], Some [Some (Fin (2 ^ 1022))]]"
  by (simp add: init_simps big_rows_def run_simps)

lemma big_rows_init:
  "init_state [Some [Some (Fin 0)], Some [Some (Fin (2 ^ 1022))]] 4 1 2 = Inr big_rows_start"
  by (simp add: init_simps big_rows_start_def run_simps)

lemma big_rows_iteration_1: "iteration exact big_rows 4 1 2 big_rows_start = Inr big_rows_first"
  by (simp add: iteration_simps big_rows_start_def big_rows_first_def big_rows_def run_simps)

lemma big_rows_iteration_2: "iteration exact big_rows 4 1 2 big_rows_first = Inr big_rows_even"
  by (simp add: iteration_simps big_rows_even_def big_rows_first_def big_rows_def run_simps)

lemma big_rows_iteration_3: "iteration exact big_rows 4 1 2 big_rows_even = Inr big_rows_odd"
  by (simp add: iteration_simps big_rows_even_def big_rows_odd_def big_rows_def run_simps)

lemma big_rows_iteration_4: "iteration exact big_rows 4 1 2 big_rows_odd = Inr big_rows_even"
  by (simp add: iteration_simps big_rows_even_def big_rows_odd_def big_rows_def run_simps)

lemma big_rows_cycle:
  assumes "k_means_loop rnd data_rows n m k s = Some res"
  shows "\<not> (rnd = exact \<and> data_rows = big_rows \<and> n = 4 \<and> m = 1 \<and> k = 2 \<and>
            (s = big_rows_even \<or> s = big_rows_odd))"
proof -
  let ?P = "\<lambda>(rnd :: rounding) (data_rows :: double array array) (n :: nat) (m :: nat) (k :: nat)
      (s :: state) (res :: error + state).
      \<not> (rnd = exact \<and> data_rows = big_rows \<and> n = 4 \<and> m = 1 \<and> k = 2 \<and>
            (s = big_rows_even \<or> s = big_rows_odd))"
  show ?thesis
  proof (rule k_means_loop.raw_induct [where P = ?P, OF _ assms])
    fix loop rnd data_rows n m k s res
    assume IH: "\<And>rnd data_rows n m k s res.
        loop rnd data_rows n m k s = Some res \<Longrightarrow> ?P rnd data_rows n m k s res"
      and body: "(if fge (movement s) DBL_EPSILON \<and> iterations s < 2500
          then case iteration rnd data_rows n m k s of
                 Inl e \<Rightarrow> Some (Inl e)
               | Inr s' \<Rightarrow> loop rnd data_rows n m k s'
          else Some (Inr s)) = Some res"
    show "?P rnd data_rows n m k s res"
    proof
      assume c: "rnd = exact \<and> data_rows = big_rows \<and> n = 4 \<and> m = 1 \<and> k = 2 \<and>
            (s = big_rows_even \<or> s = big_rows_odd)"
      then have eqs: "rnd = exact" "data_rows = big_rows" "n = 4" "m = 1" "k = 2"
        by simp_all
      from c consider "s = big_rows_even" | "s = big_rows_odd" by blast
      then show False
      proof cases
        case 1
        have "fge (movement s) DBL_EPSILON \<and> iterations s < 2500"
          by (simp add: 1 big_rows_even_def DBL_EPSILON_def)
        with body [unfolded eqs 1 big_rows_iteration_3]
        have "loop exact big_rows 4 1 2 big_rows_odd = Some res"
          by (simp add: 1)
        from IH [OF this] show False by simp
      next
        case 2
        have "fge (movement s) DBL_EPSILON \<and> iterations s < 2500"
          by (simp add: 2 big_rows_odd_def DBL_EPSILON_def)
        with body [unfolded eqs 2 big_rows_iteration_4]
        have "loop exact big_rows 4 1 2 big_rows_even = Some res"
          by (simp add: 2)
        from IH [OF this] show False by simp
      qed
    qed
  qed
qed

text \<open>
  Claim C2 says that the loop performs at most 2500 iterations on every input. It does
  not: on the four rows \<open>0\<close>, \<open>2^1022\<close>, \<open>2^1022\<close>, \<open>2^1023\<close> with two generated kernels
  the kernels alternate between two positions and \<open>movement\<close> is infinite after every
  iteration, so with the counter stuck at 0 the loop never ends. Every operation of this
  run is exact or overflows, in binary64 as here.
\<close>

theorem k_means_runs_forever: "k_means exact rng 2 big_rows 4 1 True = None"
proof -
  have "k_means_loop exact big_rows 4 1 2 big_rows_start =
        k_means_loop exact big_rows 4 1 2 big_rows_first"
    by (rule k_means_loop_continue [OF _ _ big_rows_iteration_1])
       (simp_all add: big_rows_start_def DBL_EPSILON_def)
  also have "\<dots> = k_means_loop exact big_rows 4 1 2 big_rows_even"
    by (rule k_means_loop_continue [OF _ _ big_rows_iteration_2])
       (simp_all add: big_rows_first_def DBL_EPSILON_def)
  also have "\<dots> = None"
    using big_rows_cycle [of exact big_rows 4 1 2 big_rows_even]
    by (cases "k_means_loop exact big_rows 4 1 2 big_rows_even") auto
  finally show ?thesis
    unfolding k_means_generate [OF big_rows_kernels big_rows_init]
    by simp
qed

section \<open>Random sampling reads past the last row\<close>

text \<open>
  \<open>rand()\<close> may return \<open>RAND_MAX\<close>. Then \<open>r\<close> is 1 and the drawn row is \<open>n\<close>, one past the
  last row of the dataset.
\<close>

lemma pick_row_at_RAND_MAX: "pick_row exact (\<lambda>c. RAND_MAX) 2 [None] 0 0 = Some (Inr (2, 1))"
  by (subst pick_row.simps) (simp add: already_seen_def RAND_MAX_def run_simps)

text \<open>
  Claim C7 says that every index used to read \<open>data_rows\<close> is below \<open>n\<close>. On the two rows
  \<open>two_rows\<close> with one kernel, a first draw of \<open>RAND_MAX\<close> makes \<open>pick_random_kernels\<close> read
  \<open>data_rows[2]\<close>.
\<close>

theorem pick_random_kernels_out_of_bounds:
  "pick_random_kernels exact (\<lambda>c. RAND_MAX) two_rows 2 1 1 = Some (Inl OutOfBounds)"
  unfolding pick_random_kernels_def
  by (simp add: pick_row_at_RAND_MAX alloc_rows_def copy_row_def two_rows_def run_simps)

section \<open>Arithmetic on values that are not negative\<close>

lemma DBL_MAX_pos: "0 < DBL_MAX"
  by (simp add: DBL_MAX_def)

lemma nonneg_rounding_exact: "nonneg_rounding exact"
  by (simp add: nonneg_rounding_def exact_def)

lemma fin_nonneg: "nonneg_rounding rnd \<Longrightarrow> 0 \<le> x \<Longrightarrow> nonneg (fin rnd x)"
  using DBL_MAX_pos by (auto simp: fin_def Let_def nonneg_rounding_def dest!: spec [where x = x])

lemma fin_not_NaN: "fin rnd x \<noteq> NaN"
  by (simp add: fin_def Let_def)

lemma fsub_finite_not_NaN: "fsub rnd (Fin x) (Fin y) \<noteq> NaN"
  by (simp add: fsub_def fin_not_NaN)

lemma square_nonneg: "nonneg_rounding rnd \<Longrightarrow> d \<noteq> NaN \<Longrightarrow> nonneg (fmul rnd d d)"
  by (cases d) (simp_all add: fin_nonneg)

lemma fadd_nonneg: "nonneg_rounding rnd \<Longrightarrow> nonneg a \<Longrightarrow> nonneg b \<Longrightarrow> nonneg (fadd rnd a b)"
  by (cases a; cases b) (simp_all add: fin_nonneg)

lemma fsqrt_nonneg: "nonneg_rounding rnd \<Longrightarrow> nonneg a \<Longrightarrow> nonneg (fsqrt rnd a)"
  by (cases a) (simp_all add: fin_nonneg)

lemma nonneg_not_negative: "nonneg a \<Longrightarrow> \<not> flt a (Fin 0)"
  by (cases a) simp_all

lemma nonneg_not_NaN: "nonneg a \<Longrightarrow> \<not> fne a a"
  by (cases a) (simp_all add: fne_def)

lemma nonneg_ge_zero: "nonneg a \<Longrightarrow> fge a (Fin 0)"
  by (cases a) simp_all

text \<open>A loop whose body succeeds under an invariant succeeds, and keeps the invariant.\<close>

lemma forM_upt_total:
  assumes "P 0 s"
    and "\<And>i t. i < n \<Longrightarrow> P i t \<Longrightarrow> \<exists>t'. f i t = Inr t' \<and> P (Suc i) t'"
  shows "\<exists>s'. forM [0..<n] f s = Inr s' \<and> P n s'"
  using assms(2)
proof (induction n)
  case 0
  then show ?case using assms(1) by simp
next
  case (Suc n)
  then obtain t where t: "forM [0..<n] f s = Inr t" "P n t" by auto
  from Suc.prems [of n t] t obtain t' where "f n t = Inr t'" "P (Suc n) t'" by auto
  then show ?case using t unfolding forM_upt_Suc by simp
qed

section \<open>The distance of finite vectors\<close>

lemma rd_fvec: "i < length xs \<Longrightarrow> rd (fvec xs) i = Inr (Fin (xs ! i))"
  by (simp add: rd_def fvec_def)

text \<open>The sum of squares that the loop of \<open>distf64v\<close> computes is not negative.\<close>

lemma sum_of_squares_nonneg:
  assumes "nonneg_rounding rnd" and "length xs = m" and "length ys = m"
  shows "\<exists>sum. forM [0..<m]
          (\<lambda>i sum.
             ebind (rd (fvec xs) i) (\<lambda>pi.
             ebind (rd (fvec ys) i) (\<lambda>qi.
             Inr (fadd rnd sum (fmul rnd (fsub rnd pi qi) (fsub rnd pi qi))))))
          (Fin 0) = Inr sum \<and> nonneg sum"
proof (rule forM_upt_total [where P = "\<lambda>i sum. nonneg sum"])
  show "nonneg (Fin 0)" by simp
next
  fix i t
  assume "i < m" and "nonneg t"
  then show "\<exists>t'. ebind (rd (fvec xs) i) (\<lambda>pi.
             ebind (rd (fvec ys) i) (\<lambda>qi.
             Inr (fadd rnd t (fmul rnd (fsub rnd pi qi) (fsub rnd pi qi))))) = Inr t' \<and> nonneg t'"
    using assms
    by (simp add: rd_fvec fadd_nonneg square_nonneg fsub_finite_not_NaN)
qed

text \<open>With nothing rounded and no overflow it is the sum of the squared differences.\<close>

lemma square_le_imp_le_DBL_MAX:
  assumes "d * d \<le> DBL_MAX"
  shows "d \<le> DBL_MAX \<and> - DBL_MAX \<le> d"
proof -
  have one: "1 \<le> DBL_MAX" by (simp add: DBL_MAX_def)
  have "\<bar>d\<bar> \<le> DBL_MAX"
  proof (cases "\<bar>d\<bar> \<le> 1")
    case True
    then show ?thesis using one by linarith
  next
    case False
    then have "\<bar>d\<bar> * 1 \<le> \<bar>d\<bar> * \<bar>d\<bar>" by (intro mult_left_mono) auto
    then have "\<bar>d\<bar> \<le> d * d" by (simp add: abs_mult_self_eq)
    then show ?thesis using assms by linarith
  qed
  then show ?thesis by auto
qed

lemma sum_of_squares_exact:
  assumes "length xs = m" and "length ys = m"
    and "(\<Sum>i<m. (xs ! i - ys ! i) * (xs ! i - ys ! i)) \<le> DBL_MAX"
  shows "forM [0..<m]
          (\<lambda>i sum.
             ebind (rd (fvec xs) i) (\<lambda>pi.
             ebind (rd (fvec ys) i) (\<lambda>qi.
             Inr (fadd exact sum (fmul exact (fsub exact pi qi) (fsub exact pi qi))))))
          (Fin 0) = Inr (Fin (\<Sum>i<m. (xs ! i - ys ! i) * (xs ! i - ys ! i)))"
proof -
  let ?sq = "\<lambda>i. (xs ! i - ys ! i) * (xs ! i - ys ! i)"
  have part: "(\<Sum>j<i. ?sq j) \<le> DBL_MAX" if "i \<le> m" for i
  proof -
    have "(\<Sum>j<i. ?sq j) \<le> (\<Sum>j<m. ?sq j)"
      using that by (intro sum_mono2) auto
    then show ?thesis using assms(3) by linarith
  qed
  have nonneg_part: "0 \<le> (\<Sum>j<i. ?sq j)" for i
    by (intro sum_nonneg) simp
  have sq_le: "?sq i \<le> DBL_MAX" if "i < m" for i
  proof -
    have "?sq i \<le> (\<Sum>j<Suc i. ?sq j)" using nonneg_part [of i] by simp
    also have "\<dots> \<le> DBL_MAX" using part [of "Suc i"] that by simp
    finally show ?thesis .
  qed
  have "\<exists>s'. forM [0..<m]
          (\<lambda>i sum.
             ebind (rd (fvec xs) i) (\<lambda>pi.
             ebind (rd (fvec ys) i) (\<lambda>qi.
             Inr (fadd exact sum (fmul exact (fsub exact pi qi) (fsub exact pi qi))))))
          (Fin 0) = Inr s' \<and> s' = Fin (\<Sum>j<m. ?sq j)"
  proof (rule forM_upt_total [where P = "\<lambda>i sum. sum = Fin (\<Sum>j<i. ?sq j)"])
    show "Fin 0 = Fin (\<Sum>j<0. ?sq j)" by simp
  next
    fix i t
    assume i: "i < m" and t: "t = Fin (\<Sum>j<i. ?sq j)"
    have d: "xs ! i - ys ! i \<le> DBL_MAX \<and> - DBL_MAX \<le> xs ! i - ys ! i"
      using sq_le [OF i] by (rule square_le_imp_le_DBL_MAX)
    have sub: "fsub exact (Fin (xs ! i)) (Fin (ys ! i)) = Fin (xs ! i - ys ! i)"
      using d by (simp add: fsub_def fin_def exact_def)
    have "- DBL_MAX \<le> ?sq i"
      using DBL_MAX_pos zero_le_square [of "xs ! i - ys ! i"] by linarith
    then have sq: "fin exact (?sq i) = Fin (?sq i)"
      using sq_le [OF i] by (simp add: fin_def exact_def not_less)
    have add: "fadd exact t (Fin (?sq i)) = Fin (\<Sum>j<Suc i. ?sq j)"
      using part [of "Suc i"] i nonneg_part [of "Suc i"] DBL_MAX_pos
      by (simp add: t fin_def exact_def not_less)
    show "\<exists>t'. ebind (rd (fvec xs) i) (\<lambda>pi.
             ebind (rd (fvec ys) i) (\<lambda>qi.
             Inr (fadd exact t (fmul exact (fsub exact pi qi) (fsub exact pi qi))))) = Inr t' \<and>
             t' = Fin (\<Sum>j<Suc i. ?sq j)"
      using i assms(1,2) by (simp add: rd_fvec sub sq add)
  qed
  then show ?thesis by simp
qed


text \<open>Whatever \<open>distf64v\<close> returns is not negative and not NaN.\<close>

lemma distf64v_result_nonneg:
  assumes "nonneg_rounding rnd" and "distf64v rnd p q m = Inr d"
  shows "nonneg d"
proof -
  from assms(2) obtain sum where "\<not> flt sum (Fin 0)" and "\<not> fne (fsqrt rnd sum) (fsqrt rnd sum)"
    and d: "d = fsqrt rnd sum"
    unfolding distf64v_def by (auto simp: ebind_eq_Inr Let_def split: if_splits)
  then show ?thesis
    using assms(1) by (cases sum) (auto simp: fne_def fin_nonneg d split: if_splits)
qed

text \<open>
  Claim C5, amended. For feature vectors \<open>p\<close> and \<open>q\<close> of length \<open>m\<close> with finite
  components, \<open>distf64v\<close> takes neither of its failure branches and returns a value that
  is not negative and not NaN: the Euclidean distance evaluated in floating point. The
  value is plus infinity when an intermediate result overflows, so it need not be finite.
  When nothing is rounded and the sum of the squared differences does not exceed
  \<open>DBL_MAX\<close>, the value is the Euclidean distance itself.
\<close>

theorem distf64v_finite_vectors:
  assumes "nonneg_rounding rnd" and "length xs = m" and "length ys = m"
  shows "\<exists>d. distf64v rnd (fvec xs) (fvec ys) m = Inr d \<and> nonneg d \<and> fge d (Fin 0) \<and>
           (rnd = exact \<longrightarrow>
            (\<Sum>i<m. (xs ! i - ys ! i) * (xs ! i - ys ! i)) \<le> DBL_MAX \<longrightarrow>
            d = Fin (sqrt (\<Sum>i<m. (xs ! i - ys ! i) * (xs ! i - ys ! i))))"
proof -
  let ?S = "\<Sum>i<m. (xs ! i - ys ! i) * (xs ! i - ys ! i)"
  from sum_of_squares_nonneg [OF assms] obtain sum where
    sum: "forM [0..<m]
          (\<lambda>i sum.
             ebind (rd (fvec xs) i) (\<lambda>pi.
             ebind (rd (fvec ys) i) (\<lambda>qi.
             Inr (fadd rnd sum (fmul rnd (fsub rnd pi qi) (fsub rnd pi qi))))))
          (Fin 0) = Inr sum" and
    nn: "nonneg sum"
    by auto
  have out: "nonneg (fsqrt rnd sum)" using assms(1) nn by (rule fsqrt_nonneg)
  have d: "distf64v rnd (fvec xs) (fvec ys) m = Inr (fsqrt rnd sum)"
    unfolding distf64v_def sum
    using nonneg_not_negative [OF nn] nonneg_not_NaN [OF out] by (simp add: Let_def)
  have "fsqrt rnd sum = Fin (sqrt ?S)" if "rnd = exact" and le: "?S \<le> DBL_MAX"
  proof -
    have "sum = Fin ?S"
      using sum_of_squares_exact [OF assms(2,3) le] sum that(1) by simp
    moreover have "0 \<le> ?S" by (intro sum_nonneg) simp
    moreover have "sqrt ?S \<le> DBL_MAX \<and> - DBL_MAX \<le> sqrt ?S"
      using le \<open>0 \<le> ?S\<close> by (intro square_le_imp_le_DBL_MAX) simp
    ultimately show ?thesis
      using that(1) by (simp add: fin_def exact_def not_less)
  qed
  then show ?thesis
    using d out nonneg_ge_zero [OF out] by blast
qed

theorem distf64v_finite_vectors_witness:
  "nonneg_rounding exact \<and> length [0, 0 :: real] = 2 \<and> length [3, 4 :: real] = 2 \<and>
   (\<exists>d. distf64v exact (fvec [0, 0]) (fvec [3, 4]) 2 = Inr d \<and> nonneg d \<and> fge d (Fin 0) \<and>
        d = Fin 5)"
proof -
  have s: "(\<Sum>i<2. ([0, 0] ! i - [3, 4 :: real] ! i) * ([0, 0] ! i - [3, 4] ! i)) = 25"
    by (simp add: lessThan_Suc numeral_2_eq_2)
  have r: "sqrt 25 = 5" by (rule real_sqrt_unique) simp_all
  have le: "(25 :: real) \<le> DBL_MAX" by (simp add: DBL_MAX_def)
  from distf64v_finite_vectors [OF nonneg_rounding_exact, of "[0, 0]" 2 "[3, 4]"]
  show ?thesis
    unfolding s using r le nonneg_rounding_exact by auto
qed

text \<open>
  Claim C5 as stated says that the distance of finite vectors is finite. The distance
  of \<open>2^1023\<close> and \<open>-2^1023\<close>, both finite doubles, is plus infinity: their difference
  overflows.
\<close>

theorem distf64v_overflow:
  "distf64v exact (fvec [2 ^ 1023]) (fvec [- (2 ^ 1023)]) 1 = Inr PInf \<and> \<not> is_finite PInf"
  by (simp add: fvec_def run_simps)

section \<open>Cells after a write\<close>

lemma rd_wr:
  assumes "wr a i v = Inr a'"
  shows "rd a' j = (if j = i then Inr v else rd a j)"
  using assms by (auto simp: wr_eq_Inr rd_def)

lemma rd2_wr2:
  assumes "wr2 a i j v = Inr a'"
  shows "rd2 a' i' j' = (if i' = i \<and> j' = j then Inr v else rd2 a i' j')"
proof -
  from assms obtain row where row: "i < length a" "a ! i = Some row" "j < length row"
    and a': "a' = a[i := Some (row[j := Some v])]"
    by (auto simp: wr2_eq_Inr)
  show ?thesis
    using row by (auto simp: a' rd2_def rd_def nth_list_update)
qed

lemma rd_wr2_other:
  assumes "wr2 a i j v = Inr a'" and "i' \<noteq> i"
  shows "rd a' i' = rd a i'"
  using assms by (auto simp: wr2_eq_Inr rd_def)

section \<open>The snapshot\<close>

lemma snapshot_cells:
  assumes "snapshot k m s = Inr s'"
  shows "kernels s' = kernels s \<and>
         (\<forall>i<k. \<forall>j<m. \<exists>v. rd2 (kernels s) i j = Inr v \<and> rd2 (prev_means s') i j = Inr v)"
proof -
  let ?row = "\<lambda>i j t. \<exists>v. rd2 (kernels s) i j = Inr v \<and> rd2 (prev_means t) i j = Inr v"
  let ?P = "\<lambda>i t. kernels t = kernels s \<and> (\<forall>i'<i. \<forall>j<m. ?row i' j t)"
  have inner: "?P (Suc i) t'"
    if run: "forM [0..<m] (\<lambda>vi s.
         ebind (rd2 (kernels s) i vi) (\<lambda>v.
         ebind (wr2 (prev_means s) i vi v) (\<lambda>pm.
         Inr (s\<lparr>prev_means := pm\<rparr>)))) t = Inr t'"
      and P: "?P i t" for i t t'
  proof -
    let ?Q = "\<lambda>j u. ?P i u \<and> (\<forall>j'<j. ?row i j' u)"
    have "?Q m t'"
      using run
    proof (rule forM_upt_inv [where P = ?Q])
      show "?Q 0 t" using P by simp
    next
      fix j u u'
      assume j: "j < m" and Q: "?Q j u"
        and step: "ebind (rd2 (kernels u) i j) (\<lambda>v.
          ebind (wr2 (prev_means u) i j v) (\<lambda>pm. Inr (u\<lparr>prev_means := pm\<rparr>))) = Inr u'"
      from step obtain v pm where v: "rd2 (kernels u) i j = Inr v"
        and pm: "wr2 (prev_means u) i j v = Inr pm" and u': "u' = u\<lparr>prev_means := pm\<rparr>"
        by (auto simp: ebind_eq_Inr)
      note upd = rd2_wr2 [OF pm]
      have k: "kernels u' = kernels s" using Q by (simp add: u')
      have old: "?row i' j' u'" if "i' < i" "j' < m" for i' j'
        using Q that by (simp add: u' upd)
      have cur: "?row i j' u'" if "j' < Suc j" for j'
      proof (cases "j' = j")
        case True
        then show ?thesis using v Q by (simp add: u' upd)
      next
        case False
        then have "j' < j" using that by simp
        then show ?thesis using Q False by (simp add: u' upd)
      qed
      show "?Q (Suc j) u'" using k old cur by simp
    qed
    then show ?thesis by (auto simp: less_Suc_eq)
  qed
  have "?P k s'"
    using assms unfolding snapshot_def
    by (rule forM_upt_inv [where P = ?P]) (simp, rule inner)
  then show ?thesis by simp
qed


section \<open>The errors of each step\<close>

lemma ebind_eq_Inl: "ebind r f = Inl e \<longleftrightarrow> r = Inl e \<or> (\<exists>x. r = Inr x \<and> f x = Inl e)"
  by (cases r) auto

lemma forM_error:
  assumes "forM is f s = Inl e"
  shows "\<exists>i\<in>set is. \<exists>t. f i t = Inl e"
  using assms
proof (induction "is" arbitrary: s)
  case Nil
  then show ?case by simp
next
  case (Cons i "is")
  then show ?case by (cases "f i s") auto
qed

lemma forM_upt_error:
  assumes "forM [0..<n] f s = Inl e" and "P 0 s"
    and "\<And>i t t'. i < n \<Longrightarrow> P i t \<Longrightarrow> f i t = Inr t' \<Longrightarrow> P (Suc i) t'"
  shows "\<exists>i<n. \<exists>t. P i t \<and> f i t = Inl e"
  using assms
proof (induction n)
  case 0
  then show ?case by simp
next
  case (Suc n)
  show ?case
  proof (cases "forM [0..<n] f s")
    case (Inl e')
    then have "forM [0..<n] f s = Inl e" using Suc.prems(1) unfolding forM_upt_Suc by simp
    from Suc.IH [OF this Suc.prems(2)] Suc.prems(3) show ?thesis
      by (meson less_Suc_eq)
  next
    case (Inr t)
    then have last: "f n t = Inl e" using Suc.prems(1) unfolding forM_upt_Suc by simp
    have "P n t" using Inr Suc.prems(2)
      by (rule forM_upt_inv) (use Suc.prems(3) in auto)
    then show ?thesis using last by blast
  qed
qed

text \<open>Only the check of \<open>movement\<close> reports \<open>NanMovement\<close>.\<close>

lemma rd_error [simp]: "rd a i \<noteq> Inl NanMovement"
  by (auto simp: rd_def split: if_splits option.splits)

lemma wr_error [simp]: "wr a i v \<noteq> Inl NanMovement"
  by (auto simp: wr_def split: if_splits)

lemma rd2_error [simp]: "rd2 a i j \<noteq> Inl NanMovement"
  by (auto simp: rd2_def ebind_eq_Inl)

lemma wr2_error [simp]: "wr2 a i j v \<noteq> Inl NanMovement"
  by (auto simp: wr2_def ebind_eq_Inl)

lemma distf64v_error [simp]: "distf64v rnd p q m \<noteq> Inl NanMovement"
  unfolding distf64v_def
  by (auto simp: ebind_eq_Inl Let_def split: if_splits dest!: forM_error)

lemma snapshot_error: "snapshot k m s \<noteq> Inl NanMovement"
  unfolding snapshot_def
  by (auto simp: ebind_eq_Inl dest!: forM_error)

lemma reset_error: "reset k m s \<noteq> Inl NanMovement"
  unfolding reset_def
  by (auto simp: ebind_eq_Inl dest!: forM_error)

lemma closest_error [simp]: "closest rnd row ks k m \<noteq> Inl NanMovement"
  unfolding closest_def
  by (auto simp: ebind_eq_Inl dest!: forM_error)

lemma add_row_error [simp]: "add_row rnd row ck m s \<noteq> Inl NanMovement"
  unfolding add_row_def
  by (auto simp: ebind_eq_Inl dest!: forM_error)

lemma assign_error: "assign rnd data_rows n m k s \<noteq> Inl NanMovement"
  unfolding assign_def assign_row_def
  by (auto simp: ebind_eq_Inl dest!: forM_error)

lemma update_error: "update rnd k m s \<noteq> Inl NanMovement"
  unfolding update_def update_kernel_def
  by (auto simp: ebind_eq_Inl split: if_splits dest!: forM_error)

section \<open>The movement\<close>

lemma fadd_nonneg_not_NaN:
  "nonneg_rounding rnd \<Longrightarrow> nonneg a \<Longrightarrow> nonneg b \<Longrightarrow> \<not> fne (fadd rnd a b) (fadd rnd a b)"
  by (rule nonneg_not_NaN) (rule fadd_nonneg)

lemma update_movement_sum:
  assumes "nonneg_rounding rnd"
  shows "update_movement rnd k m s \<noteq> Inl NanMovement \<and>
         (\<forall>s'. update_movement rnd k m s = Inr s' \<longrightarrow>
            kernels s' = kernels s \<and> prev_means s' = prev_means s \<and>
            (\<exists>ds. length ds = k \<and> (\<forall>i<k. kernel_distance rnd m s i = Inr (ds ! i)) \<and>
                  movement s' = foldl (fadd rnd) (Fin 0) ds) \<and>
            nonneg (movement s'))"
proof -
  let ?body = "\<lambda>ki (s :: state).
          ebind (rd (prev_means s) ki) (\<lambda>p.
          ebind (rd (kernels s) ki) (\<lambda>q.
          ebind (distf64v rnd p q m) (\<lambda>current_movement.
          (let mv = fadd rnd (movement s) current_movement in
           if fne mv mv then Inl NanMovement else Inr (s\<lparr>movement := mv\<rparr>)))))"
  let ?P = "\<lambda>i (t :: state). kernels t = kernels s \<and> prev_means t = prev_means s \<and>
            (\<exists>ds. length ds = i \<and> (\<forall>j<i. kernel_distance rnd m s j = Inr (ds ! j)) \<and>
                  movement t = foldl (fadd rnd) (Fin 0) ds) \<and>
            nonneg (movement t)"
  have start: "?P 0 (s\<lparr>movement := Fin 0\<rparr>)" by simp
  have step: "?P (Suc i) t'" if "i < k" and P: "?P i t" and b: "?body i t = Inr t'" for i t t'
  proof -
    from b obtain p q d where p: "rd (prev_means t) i = Inr p" and q: "rd (kernels t) i = Inr q"
      and d: "distf64v rnd p q m = Inr d"
      and t': "t' = t\<lparr>movement := fadd rnd (movement t) d\<rparr>"
      by (auto simp: ebind_eq_Inr Let_def split: if_splits)
    have nd: "nonneg d" using assms d by (rule distf64v_result_nonneg)
    from P obtain ds where ds: "length ds = i"
      "\<forall>j<i. kernel_distance rnd m s j = Inr (ds ! j)"
      "movement t = foldl (fadd rnd) (Fin 0) ds"
      by auto
    have kd: "kernel_distance rnd m s i = Inr d"
      using p q d P by (simp add: kernel_distance_def)
    have "length (ds @ [d]) = Suc i \<and>
          (\<forall>j<Suc i. kernel_distance rnd m s j = Inr ((ds @ [d]) ! j)) \<and>
          movement t' = foldl (fadd rnd) (Fin 0) (ds @ [d])"
      using ds kd by (auto simp: t' nth_append less_Suc_eq)
    then have "\<exists>ds. length ds = Suc i \<and>
          (\<forall>j<Suc i. kernel_distance rnd m s j = Inr (ds ! j)) \<and>
          movement t' = foldl (fadd rnd) (Fin 0) ds"
      by blast
    moreover have "nonneg (movement t')"
      using assms P nd by (simp add: t' fadd_nonneg)
    ultimately show ?thesis using P by (simp add: t')
  qed
  have no_nan: "update_movement rnd k m s \<noteq> Inl NanMovement"
  proof
    assume "update_movement rnd k m s = Inl NanMovement"
    then have "forM [0..<k] ?body (s\<lparr>movement := Fin 0\<rparr>) = Inl NanMovement"
      by (simp add: update_movement_def)
    then have "\<exists>i<k. \<exists>t. ?P i t \<and> ?body i t = Inl NanMovement"
      using start by (rule forM_upt_error [where P = ?P]) (rule step; assumption)
    then obtain i t where "?P i t" and b: "?body i t = Inl NanMovement" by blast
    from b obtain p q d where "distf64v rnd p q m = Inr d"
      and "fne (fadd rnd (movement t) d) (fadd rnd (movement t) d)"
      by (auto simp: ebind_eq_Inl Let_def split: if_splits)
    moreover have "nonneg d" using assms calculation(1) by (rule distf64v_result_nonneg)
    ultimately show False
      using fadd_nonneg_not_NaN [OF assms, of "movement t" d] \<open>?P i t\<close> by simp
  qed
  have "?P k s'" if "update_movement rnd k m s = Inr s'" for s'
  proof -
    from that have "forM [0..<k] ?body (s\<lparr>movement := Fin 0\<rparr>) = Inr s'"
      by (simp add: update_movement_def)
    then show ?thesis
      using start by (rule forM_upt_inv [where P = ?P]) (rule step; assumption)
  qed
  with no_nan show ?thesis by blast
qed


text \<open>
  Claim C6, amended. When an iteration completes, \<open>prev_means\<close> holds the kernels as they
  were at the start of the iteration, and \<open>movement\<close> is the floating-point sum, in index
  order, of the distances between \<open>prev_means[i]\<close> and \<open>kernels[i]\<close>. That sum is not
  negative and not NaN, and it may be plus infinity: the check of \<open>movement\<close> tests for NaN
  only, and it never fails, because a distance that is NaN has already failed inside
  \<open>distf64v\<close>.
\<close>

theorem iteration_movement:
  assumes "nonneg_rounding rnd"
  shows "iteration rnd data_rows n m k s \<noteq> Inl NanMovement \<and>
         (\<forall>s'. iteration rnd data_rows n m k s = Inr s' \<longrightarrow>
            (\<forall>i<k. \<forall>j<m. \<exists>v. rd2 (kernels s) i j = Inr v \<and> rd2 (prev_means s') i j = Inr v) \<and>
            (\<exists>ds. length ds = k \<and> (\<forall>i<k. kernel_distance rnd m s' i = Inr (ds ! i)) \<and>
                  movement s' = foldl (fadd rnd) (Fin 0) ds) \<and>
            nonneg (movement s') \<and> fge (movement s') (Fin 0))"
proof
  show "iteration rnd data_rows n m k s \<noteq> Inl NanMovement"
    using snapshot_error reset_error assign_error update_error update_movement_sum [OF assms]
    by (auto simp: iteration_def ebind_eq_Inl)
next
  show "\<forall>s'. iteration rnd data_rows n m k s = Inr s' \<longrightarrow>
            (\<forall>i<k. \<forall>j<m. \<exists>v. rd2 (kernels s) i j = Inr v \<and> rd2 (prev_means s') i j = Inr v) \<and>
            (\<exists>ds. length ds = k \<and> (\<forall>i<k. kernel_distance rnd m s' i = Inr (ds ! i)) \<and>
                  movement s' = foldl (fadd rnd) (Fin 0) ds) \<and>
            nonneg (movement s') \<and> fge (movement s') (Fin 0)"
  proof (intro allI impI)
    fix s'
    assume "iteration rnd data_rows n m k s = Inr s'"
    then obtain s1 s2 s3 s4 where
      1: "snapshot k m s = Inr s1" and 2: "reset k m s1 = Inr s2" and
      3: "assign rnd data_rows n m k s2 = Inr s3" and 4: "update rnd k m s3 = Inr s4" and
      5: "update_movement rnd k m s4 = Inr s'"
      unfolding iteration_def by (auto simp: ebind_eq_Inr)
    note snap = snapshot_cells [OF 1]
    from update_frame [OF 4] obtain ks where s4: "s4 = s3\<lparr>kernels := ks\<rparr>" by auto
    from update_movement_sum [OF assms, of k m s4] 5 obtain ds where
      f: "kernels s' = kernels s4" "prev_means s' = prev_means s4" and
      ds: "length ds = k" "\<forall>i<k. kernel_distance rnd m s4 i = Inr (ds ! i)"
        "movement s' = foldl (fadd rnd) (Fin 0) ds" and
      nn: "nonneg (movement s')"
      by blast
    have pm: "prev_means s' = prev_means s1"
      using reset_frame [OF 2] assign_followers [OF 3] f by (simp add: s4)
    have "kernel_distance rnd m s' i = kernel_distance rnd m s4 i" for i
      by (simp add: kernel_distance_def f)
    then have "\<exists>ds. length ds = k \<and> (\<forall>i<k. kernel_distance rnd m s' i = Inr (ds ! i)) \<and>
                  movement s' = foldl (fadd rnd) (Fin 0) ds"
      using ds by auto
    then show "(\<forall>i<k. \<forall>j<m. \<exists>v. rd2 (kernels s) i j = Inr v \<and> rd2 (prev_means s') i j = Inr v) \<and>
            (\<exists>ds. length ds = k \<and> (\<forall>i<k. kernel_distance rnd m s' i = Inr (ds ! i)) \<and>
                  movement s' = foldl (fadd rnd) (Fin 0) ds) \<and>
            nonneg (movement s') \<and> fge (movement s') (Fin 0)"
      using snap nn nonneg_ge_zero [OF nn] by (simp add: pm)
  qed
qed

theorem iteration_movement_witness:
  "nonneg_rounding exact \<and>
   iteration exact two_rows 2 1 2 two_rows_start = Inr two_rows_final \<and>
   (\<exists>ds. length ds = 2 \<and> kernel_distance exact 1 two_rows_final 0 = Inr (ds ! 0) \<and>
         kernel_distance exact 1 two_rows_final 1 = Inr (ds ! 1) \<and>
         movement two_rows_final = foldl (fadd exact) (Fin 0) ds) \<and>
   nonneg (movement two_rows_final) \<and> movement two_rows_final = Fin 0"
proof -
  from iteration_movement [OF nonneg_rounding_exact, of two_rows 2 1 2 two_rows_start]
    two_rows_iteration
  have "(\<exists>ds. length ds = 2 \<and> (\<forall>i<2. kernel_distance exact 1 two_rows_final i = Inr (ds ! i)) \<and>
            movement two_rows_final = foldl (fadd exact) (Fin 0) ds) \<and>
        nonneg (movement two_rows_final)"
    by simp
  then show ?thesis
    using nonneg_rounding_exact two_rows_iteration by (auto simp: two_rows_final_def)
qed

text \<open>
  Claim C6 as stated says that the run fails when \<open>movement\<close> is not finite. The first
  iteration on \<open>big_rows\<close> ends with an infinite \<open>movement\<close> and does not fail.
\<close>

theorem iteration_infinite_movement:
  "iteration exact big_rows 4 1 2 big_rows_start = Inr big_rows_first \<and>
   movement big_rows_first = PInf \<and> \<not> is_finite (movement big_rows_first)"
  using big_rows_iteration_1 by (simp add: big_rows_first_def)

section \<open>The update step\<close>

lemma wr2_other_rows:
  assumes "wr2 a i j v = Inr a'"
  shows "length a' = length a \<and> (\<forall>i'. i' \<noteq> i \<longrightarrow> a' ! i' = a ! i')"
  using assms by (auto simp: wr2_eq_Inr)

lemma update_kernel_cells:
  assumes "update_kernel rnd m ki s = Inr s'"
  shows "kernel_follower_count s' = kernel_follower_count s \<and>
         kernel_follower_sum s' = kernel_follower_sum s \<and>
         length (kernels s') = length (kernels s) \<and>
         (\<forall>i'. i' \<noteq> ki \<longrightarrow> kernels s' ! i' = kernels s ! i') \<and>
         (\<forall>vi<m. \<exists>c. rd (kernel_follower_count s) ki = Inr c \<and>
            (0 < c \<longrightarrow>
               (\<exists>sm. rd2 (kernel_follower_sum s) ki vi = Inr sm \<and>
                     rd2 (kernels s') ki vi = Inr (fdiv rnd sm (of_size_t rnd c))))) \<and>
         (rd (kernel_follower_count s) ki = Inr 0 \<longrightarrow> kernels s' = kernels s)"
proof -
  let ?Q = "\<lambda>j (u :: state).
         kernel_follower_count u = kernel_follower_count s \<and>
         kernel_follower_sum u = kernel_follower_sum s \<and>
         length (kernels u) = length (kernels s) \<and>
         (\<forall>i'. i' \<noteq> ki \<longrightarrow> kernels u ! i' = kernels s ! i') \<and>
         (\<forall>vi<j. \<exists>c. rd (kernel_follower_count s) ki = Inr c \<and>
            (0 < c \<longrightarrow>
               (\<exists>sm. rd2 (kernel_follower_sum s) ki vi = Inr sm \<and>
                     rd2 (kernels u) ki vi = Inr (fdiv rnd sm (of_size_t rnd c))))) \<and>
         (rd (kernel_follower_count s) ki = Inr 0 \<longrightarrow> kernels u = kernels s)"
  have "?Q m s'"
    using assms unfolding update_kernel_def
  proof (rule forM_upt_inv [where P = ?Q])
    show "?Q 0 s" by simp
  next
    fix j u u'
    assume j: "j < m" and Q: "?Q j u"
      and step: "ebind (rd (kernel_follower_count u) ki) (\<lambda>c.
         if c \<le> 0 then Inr u
         else
           ebind (rd2 (kernel_follower_sum u) ki j) (\<lambda>sm.
           ebind (wr2 (kernels u) ki j (fdiv rnd sm (of_size_t rnd c))) (\<lambda>ks.
           Inr (u\<lparr>kernels := ks\<rparr>)))) = Inr u'"
    have cs: "kernel_follower_count u = kernel_follower_count s"
      "kernel_follower_sum u = kernel_follower_sum s"
      using Q by simp_all
    from step [unfolded cs] obtain c where c: "rd (kernel_follower_count s) ki = Inr c"
      and rest: "(if c \<le> 0 then Inr u
         else
           ebind (rd2 (kernel_follower_sum s) ki j) (\<lambda>sm.
           ebind (wr2 (kernels u) ki j (fdiv rnd sm (of_size_t rnd c))) (\<lambda>ks.
           Inr (u\<lparr>kernels := ks\<rparr>)))) = Inr u'"
      by (auto simp: ebind_eq_Inr)
    show "?Q (Suc j) u'"
    proof (cases "c = 0")
      case True
      then have "u' = u" using rest by simp
      then show ?thesis using Q c True by (auto simp: less_Suc_eq)
    next
      case False
      with rest obtain sm ks where sm: "rd2 (kernel_follower_sum s) ki j = Inr sm"
        and ks: "wr2 (kernels u) ki j (fdiv rnd sm (of_size_t rnd c)) = Inr ks"
        and u': "u' = u\<lparr>kernels := ks\<rparr>"
        by (auto simp: ebind_eq_Inr)
      note other = wr2_other_rows [OF ks]
      note cell = rd2_wr2 [OF ks]
      have "\<exists>c. rd (kernel_follower_count s) ki = Inr c \<and>
            (0 < c \<longrightarrow>
               (\<exists>sm. rd2 (kernel_follower_sum s) ki vi = Inr sm \<and>
                     rd2 (kernels u') ki vi = Inr (fdiv rnd sm (of_size_t rnd c))))"
        if "vi < Suc j" for vi
      proof (cases "vi = j")
        case True
        then show ?thesis using c sm by (simp add: u' cell)
      next
        case neq: False
        then have "vi < j" using that by simp
        then show ?thesis using Q neq by (simp add: u' cell)
      qed
      then show ?thesis using Q other c False by (simp add: u')
    qed
  qed
  then show ?thesis by simp
qed

text \<open>
  Claim C4. After the update step, every kernel \<open>ki\<close> whose follower count \<open>c\<close> is positive
  has each of its \<open>m\<close> components replaced by the accumulated sum of that component
  divided by \<open>c\<close>, and every kernel whose follower count is zero is the very cell it was
  before the step. The step changes nothing but the kernels.
\<close>

theorem update_means:
  assumes "update rnd k m s = Inr s'"
  shows "kernel_follower_count s' = kernel_follower_count s \<and>
         kernel_follower_sum s' = kernel_follower_sum s \<and>
         (\<forall>ki<k.
            (\<forall>vi<m. \<exists>c. rd (kernel_follower_count s) ki = Inr c \<and>
               (0 < c \<longrightarrow>
                  (\<exists>sm. rd2 (kernel_follower_sum s) ki vi = Inr sm \<and>
                        rd2 (kernels s') ki vi = Inr (fdiv rnd sm (of_size_t rnd c))))) \<and>
            (rd (kernel_follower_count s) ki = Inr 0 \<longrightarrow> kernels s' ! ki = kernels s ! ki))"
proof -
  let ?post = "\<lambda>ki (u :: state).
            (\<forall>vi<m. \<exists>c. rd (kernel_follower_count s) ki = Inr c \<and>
               (0 < c \<longrightarrow>
                  (\<exists>sm. rd2 (kernel_follower_sum s) ki vi = Inr sm \<and>
                        rd2 (kernels u) ki vi = Inr (fdiv rnd sm (of_size_t rnd c))))) \<and>
            (rd (kernel_follower_count s) ki = Inr 0 \<longrightarrow> kernels u ! ki = kernels s ! ki)"
  let ?P = "\<lambda>i (t :: state).
         kernel_follower_count t = kernel_follower_count s \<and>
         kernel_follower_sum t = kernel_follower_sum s \<and>
         (\<forall>ki<i. ?post ki t) \<and> (\<forall>ki. i \<le> ki \<longrightarrow> kernels t ! ki = kernels s ! ki)"
  have "?P k s'"
    using assms unfolding update_def
  proof (rule forM_upt_inv [where P = ?P])
    show "?P 0 s" by simp
  next
    fix i t t'
    assume i: "i < k" and P: "?P i t" and step: "update_kernel rnd m i t = Inr t'"
    note c = update_kernel_cells [OF step]
    have same: "rd2 (kernels t') ki vi = rd2 (kernels t) ki vi" if "ki \<noteq> i" for ki vi
      using c that by (simp add: rd2_def rd_def)
    have old: "?post ki t'" if "ki < i" for ki
      using P c that same [of ki] by simp
    have cur: "?post i t'"
      using P c by auto
    have "?post ki t'" if "ki < Suc i" for ki
      using old cur that by (cases "ki = i") (simp_all add: less_Suc_eq)
    then show "?P (Suc i) t'" using P c by simp
  qed
  then show ?thesis by simp
qed


lemma lonely_update: "update exact 2 1 lonely = Inr lonely_updated"
  by (simp add: update_def update_kernel_def lonely_def lonely_updated_def run_simps)

theorem update_means_witness:
  "update exact 2 1 lonely = Inr lonely_updated \<and>
   rd (kernel_follower_count lonely) 0 = Inr 2 \<and>
   rd2 (kernel_follower_sum lonely) 0 0 = Inr (Fin 4) \<and>
   rd2 (kernels lonely_updated) 0 0 = Inr (fdiv exact (Fin 4) (of_size_t exact 2)) \<and>
   rd (kernel_follower_count lonely) 1 = Inr 0 \<and>
   kernels lonely_updated ! 1 = kernels lonely ! 1 \<and>
   kernels lonely ! 1 = Some [Some (Fin 7)]"
proof -
  have c0: "rd (kernel_follower_count lonely) 0 = Inr 2"
    and c1: "rd (kernel_follower_count lonely) 1 = Inr 0"
    and s0: "rd2 (kernel_follower_sum lonely) 0 0 = Inr (Fin 4)"
    by (simp_all add: lonely_def rd_def rd2_def)
  from update_means [OF lonely_update] have
    "\<forall>ki<2.
       (\<forall>vi<1. \<exists>c. rd (kernel_follower_count lonely) ki = Inr c \<and>
          (0 < c \<longrightarrow>
             (\<exists>sm. rd2 (kernel_follower_sum lonely) ki vi = Inr sm \<and>
                   rd2 (kernels lonely_updated) ki vi = Inr (fdiv exact sm (of_size_t exact c))))) \<and>
       (rd (kernel_follower_count lonely) ki = Inr 0 \<longrightarrow>
          kernels lonely_updated ! ki = kernels lonely ! ki)"
    by simp
  then have k0: "\<exists>c. rd (kernel_follower_count lonely) 0 = Inr c \<and>
          (0 < c \<longrightarrow>
             (\<exists>sm. rd2 (kernel_follower_sum lonely) 0 0 = Inr sm \<and>
                   rd2 (kernels lonely_updated) 0 0 = Inr (fdiv exact sm (of_size_t exact c))))"
    and k1: "rd (kernel_follower_count lonely) 1 = Inr 0 \<longrightarrow>
          kernels lonely_updated ! 1 = kernels lonely ! 1"
    by simp_all
  have "rd2 (kernels lonely_updated) 0 0 = Inr (fdiv exact (Fin 4) (of_size_t exact 2))"
    using k0 c0 s0 by auto
  moreover have "kernels lonely_updated ! 1 = kernels lonely ! 1"
    using k1 c1 by simp
  ultimately have "rd2 (kernels lonely_updated) 0 0 = Inr (fdiv exact (Fin 4) (of_size_t exact 2))"
    and "kernels lonely_updated ! 1 = kernels lonely ! 1"
    by simp_all
  then show ?thesis
    using lonely_update c0 c1 s0 by (simp add: lonely_def)
qed

section \<open>The assignment step\<close>

lemma distf64v_not_NaN: "distf64v rnd p q m = Inr d \<Longrightarrow> d \<noteq> NaN"
  unfolding distf64v_def
  by (auto simp: ebind_eq_Inr Let_def fne_def split: if_splits)

lemma row_distance_not_NaN: "row_distance rnd m row ks i = Inr d \<Longrightarrow> d \<noteq> NaN"
  unfolding row_distance_def by (auto simp: ebind_eq_Inr dest: distf64v_not_NaN)

lemma flt_below_all: "flt d c \<Longrightarrow> \<not> flt e c \<Longrightarrow> \<not> flt e d"
  by (cases d; cases c; cases e) auto

lemma flt_below_strict: "flt d c \<Longrightarrow> \<not> flt e c \<Longrightarrow> e \<noteq> NaN \<Longrightarrow> flt d e"
  by (cases d; cases c; cases e) auto

lemma not_flt_PInf: "d \<noteq> NaN \<Longrightarrow> \<not> flt d PInf \<Longrightarrow> d = PInf"
  by (cases d) auto

text \<open>
  The search returns the first kernel at the least distance: no kernel is strictly
  closer, and every kernel before it is strictly farther.
\<close>

lemma closest_least:
  assumes "closest rnd row ks k m = Inr (cd, ck)" and "0 < k"
  shows "ck < k \<and> row_distance rnd m row ks ck = Inr cd \<and>
         (\<forall>j<k. \<exists>d. row_distance rnd m row ks j = Inr d \<and> \<not> flt d cd) \<and>
         (\<forall>j<ck. \<exists>d. row_distance rnd m row ks j = Inr d \<and> flt cd d)"
proof -
  let ?P = "\<lambda>i (c :: double \<times> nat).
      (i = 0 \<and> c = (INFINITY, 0)) \<or>
      (0 < i \<and> snd c < i \<and> row_distance rnd m row ks (snd c) = Inr (fst c) \<and>
       (\<forall>j<i. \<exists>d. row_distance rnd m row ks j = Inr d \<and> \<not> flt d (fst c)) \<and>
       (\<forall>j<snd c. \<exists>d. row_distance rnd m row ks j = Inr d \<and> flt (fst c) d))"
  have "?P k (cd, ck)"
    using assms(1) unfolding closest_def
  proof (rule forM_upt_inv [where P = ?P])
    show "?P 0 (INFINITY, 0)" by simp
  next
    fix i c c'
    assume "i < k" and P: "?P i c"
      and step: "(case c of (closest_distance, closest_kernel) \<Rightarrow>
          ebind (rd ks i) (\<lambda>kernel.
          ebind (distf64v rnd row kernel m) (\<lambda>distance.
          Inr (if flt distance closest_distance then (distance, i)
               else (closest_distance, closest_kernel))))) = Inr c'"
    obtain cd0 ck0 where c: "c = (cd0, ck0)" by (cases c)
    from step obtain d where d: "row_distance rnd m row ks i = Inr d"
      and c': "c' = (if flt d cd0 then (d, i) else (cd0, ck0))"
      by (auto simp: c ebind_eq_Inr row_distance_def)
    note dn = row_distance_not_NaN [OF d]
    show "?P (Suc i) c'"
    proof (cases "i = 0")
      case True
      then have "c = (INFINITY, 0)" using P by simp
      then have "c' = (d, 0)"
        using c c' dn True not_flt_PInf [of d] by (auto simp: INFINITY_def)
      then show ?thesis using d True dn by (cases d) auto
    next
      case False
      then have inv: "ck0 < i" "row_distance rnd m row ks ck0 = Inr cd0"
        "\<forall>j<i. \<exists>d. row_distance rnd m row ks j = Inr d \<and> \<not> flt d cd0"
        "\<forall>j<ck0. \<exists>d. row_distance rnd m row ks j = Inr d \<and> flt cd0 d"
        using P c by auto
      show ?thesis
      proof (cases "flt d cd0")
        case True
        have "\<exists>e. row_distance rnd m row ks j = Inr e \<and> \<not> flt e d" if "j < Suc i" for j
        proof (cases "j = i")
          case True
          then show ?thesis using d dn by (cases d) auto
        next
          case neq: False
          then have "j < i" using that by simp
          with inv(3) obtain e where "row_distance rnd m row ks j = Inr e" "\<not> flt e cd0"
            by auto
          then show ?thesis using flt_below_all [OF True] by auto
        qed
        moreover have "\<exists>e. row_distance rnd m row ks j = Inr e \<and> flt d e" if "j < i" for j
        proof -
          from inv(3) that obtain e where e: "row_distance rnd m row ks j = Inr e" "\<not> flt e cd0"
            by auto
          then show ?thesis
            using flt_below_strict [OF True e(2)] row_distance_not_NaN [OF e(1)] by auto
        qed
        ultimately show ?thesis using True d by (simp add: c')
      next
        case nlt: False
        have "\<exists>e. row_distance rnd m row ks j = Inr e \<and> \<not> flt e cd0" if "j < Suc i" for j
          using inv(3) d nlt that by (cases "j = i") (auto simp: less_Suc_eq)
        then show ?thesis using nlt inv by (simp add: c')
      qed
    qed
  qed
  then show ?thesis using assms(2) by simp
qed


lemma add_row_cells:
  assumes "add_row rnd row ck m s = Inr s'"
  shows "(\<forall>i. i \<noteq> ck \<longrightarrow> kernel_follower_sum s' ! i = kernel_follower_sum s ! i) \<and>
         (\<forall>vi<m. \<exists>x acc. rd row vi = Inr x \<and> rd2 (kernel_follower_sum s) ck vi = Inr acc \<and>
            rd2 (kernel_follower_sum s') ck vi = Inr (fadd rnd acc x))"
proof -
  let ?Q = "\<lambda>j (u :: state).
         (\<forall>i. i \<noteq> ck \<longrightarrow> kernel_follower_sum u ! i = kernel_follower_sum s ! i) \<and>
         (\<forall>vi<j. \<exists>x acc. rd row vi = Inr x \<and> rd2 (kernel_follower_sum s) ck vi = Inr acc \<and>
            rd2 (kernel_follower_sum u) ck vi = Inr (fadd rnd acc x)) \<and>
         (\<forall>vi. j \<le> vi \<longrightarrow>
            rd2 (kernel_follower_sum u) ck vi = rd2 (kernel_follower_sum s) ck vi)"
  have "?Q m s'"
    using assms unfolding add_row_def
  proof (rule forM_upt_inv [where P = ?Q])
    show "?Q 0 s" by simp
  next
    fix j u u'
    assume "j < m" and Q: "?Q j u"
      and step: "ebind (rd row j) (\<lambda>x.
       ebind (rd2 (kernel_follower_sum u) ck j) (\<lambda>acc.
       ebind (wr2 (kernel_follower_sum u) ck j (fadd rnd acc x)) (\<lambda>sm.
       Inr (u\<lparr>kernel_follower_sum := sm\<rparr>)))) = Inr u'"
    from step obtain x acc sm where x: "rd row j = Inr x"
      and acc: "rd2 (kernel_follower_sum u) ck j = Inr acc"
      and sm: "wr2 (kernel_follower_sum u) ck j (fadd rnd acc x) = Inr sm"
      and u': "u' = u\<lparr>kernel_follower_sum := sm\<rparr>"
      by (auto simp: ebind_eq_Inr)
    note other = wr2_other_rows [OF sm]
    note cell = rd2_wr2 [OF sm]
    have acc0: "rd2 (kernel_follower_sum s) ck j = Inr acc" using Q acc by simp
    have "\<exists>x acc. rd row vi = Inr x \<and> rd2 (kernel_follower_sum s) ck vi = Inr acc \<and>
            rd2 (kernel_follower_sum u') ck vi = Inr (fadd rnd acc x)"
      if "vi < Suc j" for vi
    proof (cases "vi = j")
      case True
      then show ?thesis using x acc0 by (simp add: u' cell)
    next
      case False
      then have "vi < j" using that by simp
      then show ?thesis using Q False by (simp add: u' cell)
    qed
    then show "?Q (Suc j) u'" using Q other by (simp add: u' cell)
  qed
  then show ?thesis by simp
qed

section \<open>The nearest kernel\<close>

lemma fin_exact_id: "- DBL_MAX \<le> x \<Longrightarrow> x \<le> DBL_MAX \<Longrightarrow> fin exact x = Fin x"
  by (simp add: fin_def exact_def Let_def not_less)

lemma sum_sq_sum:
  assumes "length xs = m" and "length ys = m"
  shows "sum_sq xs ys = (\<Sum>i<m. (xs ! i - ys ! i) * (xs ! i - ys ! i))"
proof -
  have "sum_sq xs ys = (\<Sum>i = 0..<m. map (\<lambda>(x, y). (x - y) * (x - y)) (zip xs ys) ! i)"
    using assms by (simp add: sum_sq_def sum_list_sum_nth)
  also have "\<dots> = (\<Sum>i = 0..<m. (xs ! i - ys ! i) * (xs ! i - ys ! i))"
    using assms by (intro sum.cong) simp_all
  finally show ?thesis by (simp add: atLeast0LessThan)
qed

lemma sum_sq_nonneg: "0 \<le> sum_sq xs ys"
  unfolding sum_sq_def by (rule sum_list_nonneg) auto

text \<open>With nothing rounded and no overflow, \<open>distf64v\<close> is the Euclidean distance.\<close>

lemma distf64v_exact:
  assumes "length xs = m" and "length ys = m" and "sum_sq xs ys \<le> DBL_MAX"
  shows "distf64v exact (fvec xs) (fvec ys) m = Inr (Fin (euclidean xs ys))"
proof -
  let ?S = "\<Sum>i<m. (xs ! i - ys ! i) * (xs ! i - ys ! i)"
  have S: "sum_sq xs ys = ?S" using assms(1,2) by (rule sum_sq_sum)
  have le: "?S \<le> DBL_MAX" using assms(3) S by simp
  have nn: "0 \<le> ?S" using sum_sq_nonneg [of xs ys] S by simp
  have "sqrt ?S \<le> DBL_MAX \<and> - DBL_MAX \<le> sqrt ?S"
    using le nn by (intro square_le_imp_le_DBL_MAX) simp
  then have r: "fin exact (sqrt ?S) = Fin (sqrt ?S)" by (simp add: fin_exact_id)
  show ?thesis
    unfolding distf64v_def sum_of_squares_exact [OF assms(1,2) le]
    using nn by (simp add: r Let_def fne_def euclidean_def S)
qed

lemma row_distance_exact:
  assumes "j < length K" and "length xs = m" and "length (K ! j) = m"
    and "sum_sq xs (K ! j) \<le> DBL_MAX"
  shows "row_distance exact m (fvec xs) (fmat K) j = Inr (Fin (euclidean xs (K ! j)))"
  using assms by (simp add: row_distance_def rd_def fmat_def distf64v_exact)

text \<open>
  Claim C3, amended. In the assignment of row \<open>ri\<close>, the kernel selected among kernels
  \<open>0..k-1\<close> is the first one whose distance from the row, as \<open>distf64v\<close> computes it, is
  least: no kernel has a strictly smaller computed distance and every kernel of a lower
  index has a strictly larger one. Its index is recorded in \<open>kernel_followers[ri]\<close>, its
  follower count grows by one, and the values of the row are added, component by
  component, to its running sum; the sums of the other kernels and the kernels themselves
  are unchanged. When nothing is rounded and no sum of squared differences exceeds
  \<open>DBL_MAX\<close>, the selected kernel is the first one of least Euclidean distance.
\<close>

theorem assign_row_nearest:
  assumes "assign_row rnd data_rows m k ri s = Inr s'" and "0 < k"
  shows "\<exists>row cd ck c.
           rd data_rows ri = Inr row \<and> ck < k \<and>
           row_distance rnd m row (kernels s) ck = Inr cd \<and>
           (\<forall>j<k. \<exists>d. row_distance rnd m row (kernels s) j = Inr d \<and> \<not> flt d cd) \<and>
           (\<forall>j<ck. \<exists>d. row_distance rnd m row (kernels s) j = Inr d \<and> flt cd d) \<and>
           (rnd = exact \<longrightarrow>
            (\<forall>xs K. row = fvec xs \<and> length xs = m \<and> kernels s = fmat K \<and> matrix k m K \<and>
               (\<forall>j<k. sum_sq xs (K ! j) \<le> DBL_MAX) \<longrightarrow>
               (\<forall>j<k. euclidean xs (K ! ck) \<le> euclidean xs (K ! j)) \<and>
               (\<forall>j<ck. euclidean xs (K ! ck) < euclidean xs (K ! j)))) \<and>
           ri < length (kernel_followers s) \<and>
           kernel_followers s' = (kernel_followers s)[ri := Some ck] \<and>
           rd (kernel_follower_count s) ck = Inr c \<and>
           kernel_follower_count s' = (kernel_follower_count s)[ck := Some (c + 1)] \<and>
           (\<forall>vi<m. \<exists>x acc. rd row vi = Inr x \<and>
              rd2 (kernel_follower_sum s) ck vi = Inr acc \<and>
              rd2 (kernel_follower_sum s') ck vi = Inr (fadd rnd acc x)) \<and>
           (\<forall>i. i \<noteq> ck \<longrightarrow> kernel_follower_sum s' ! i = kernel_follower_sum s ! i) \<and>
           kernels s' = kernels s"
proof -
  from assms(1) obtain row cd ck kf c cnt where
    row: "rd data_rows ri = Inr row" and
    cl: "closest rnd row (kernels s) k m = Inr (cd, ck)" and
    kf: "wr (kernel_followers s) ri ck = Inr kf" and
    c: "rd (kernel_follower_count s) ck = Inr c" and
    cnt: "wr (kernel_follower_count s) ck (c + 1) = Inr cnt" and
    add: "add_row rnd row ck m (s\<lparr>kernel_followers := kf, kernel_follower_count := cnt\<rparr>) = Inr s'"
    unfolding assign_row_def by (auto simp: ebind_eq_Inr)
  from add_row_frame [OF add] obtain sm where
    s': "s' = s\<lparr>kernel_followers := kf, kernel_follower_count := cnt, kernel_follower_sum := sm\<rparr>"
    by auto
  from closest_least [OF cl assms(2)] have ck: "ck < k"
    and dist: "row_distance rnd m row (kernels s) ck = Inr cd"
    and least: "\<forall>j<k. \<exists>d. row_distance rnd m row (kernels s) j = Inr d \<and> \<not> flt d cd"
    and first: "\<forall>j<ck. \<exists>d. row_distance rnd m row (kernels s) j = Inr d \<and> flt cd d"
    by simp_all
  note cells = add_row_cells [OF add]
  have eu: "(\<forall>j<k. euclidean xs (K ! ck) \<le> euclidean xs (K ! j)) \<and>
            (\<forall>j<ck. euclidean xs (K ! ck) < euclidean xs (K ! j))"
    if e: "rnd = exact" and r: "row = fvec xs" and lx: "length xs = m"
      and K: "kernels s = fmat K" and mat: "matrix k m K"
      and small: "\<forall>j<k. sum_sq xs (K ! j) \<le> DBL_MAX" for xs K
  proof -
    have d: "row_distance rnd m row (kernels s) j = Inr (Fin (euclidean xs (K ! j)))"
      if "j < k" for j
      unfolding e r K using that mat small lx
      by (intro row_distance_exact) (auto simp: matrix_def)
    have cd: "cd = Fin (euclidean xs (K ! ck))" using d [OF ck] dist by simp
    have "euclidean xs (K ! ck) \<le> euclidean xs (K ! j)" if "j < k" for j
      using least d [OF that] that by (auto simp: cd)
    moreover have "euclidean xs (K ! ck) < euclidean xs (K ! j)" if "j < ck" for j
    proof -
      from that ck have "j < k" by simp
      then show ?thesis using first d [of j] that by (auto simp: cd)
    qed
    ultimately show ?thesis by blast
  qed
  have "ri < length (kernel_followers s) \<and>
        kernel_followers s' = (kernel_followers s)[ri := Some ck] \<and>
        kernel_follower_count s' = (kernel_follower_count s)[ck := Some (c + 1)] \<and>
        kernels s' = kernels s"
    using kf cnt by (simp add: s' wr_eq_Inr)
  with row ck dist least first c cells eu show ?thesis by (simp add: s') blast
qed

lemma tied_assign_row: "assign_row exact two_rows 1 3 0 tied = Inr tied_assigned"
  by (simp add: assign_row_def closest_def add_row_def tied_def tied_assigned_def two_rows_def
      fmat_def fvec_def run_simps)

lemma far_assign_row: "assign_row exact big_rows 1 2 3 far = Inr far_assigned"
  by (simp add: assign_row_def closest_def add_row_def far_def far_assigned_def big_rows_def
      fmat_def fvec_def run_simps)

lemma euclidean_single: "euclidean [x] [y] = \<bar>x - y\<bar>"
  by (simp add: euclidean_def sum_sq_def)

theorem assign_row_nearest_witness:
  "(0 :: nat) < 3 \<and> assign_row exact two_rows 1 3 0 tied = Inr tied_assigned \<and>
   rd two_rows 0 = Inr (fvec [1]) \<and> kernels tied = fmat [[4], [2], [2]] \<and>
   (\<exists>cd c.
      row_distance exact 1 (fvec [1]) (kernels tied) 1 = Inr cd \<and>
      (\<exists>d. row_distance exact 1 (fvec [1]) (kernels tied) 2 = Inr d \<and> \<not> flt d cd) \<and>
      (\<exists>d. row_distance exact 1 (fvec [1]) (kernels tied) 0 = Inr d \<and> flt cd d) \<and>
      euclidean [1] [2] \<le> euclidean [1] [2] \<and> euclidean [1] [2] < euclidean [1] [4] \<and>
      kernel_followers tied_assigned = (kernel_followers tied)[0 := Some 1] \<and>
      rd (kernel_follower_count tied) 1 = Inr c \<and>
      kernel_follower_count tied_assigned = (kernel_follower_count tied)[1 := Some (c + 1)] \<and>
      (\<exists>x acc. rd (fvec [1]) 0 = Inr x \<and> rd2 (kernel_follower_sum tied) 1 0 = Inr acc \<and>
         rd2 (kernel_follower_sum tied_assigned) 1 0 = Inr (fadd exact acc x)) \<and>
      kernel_follower_sum tied_assigned ! 0 = kernel_follower_sum tied ! 0 \<and>
      kernel_follower_sum tied_assigned ! 2 = kernel_follower_sum tied ! 2)"
proof -
  let ?K = "[[4], [2], [2 :: real]]"
  have pos: "(0 :: nat) < 3" by simp
  have row0: "rd two_rows 0 = Inr (fvec [1])" by (simp add: two_rows_def fvec_def rd_def)
  have K: "kernels tied = fmat ?K" by (simp add: tied_def)
  from assign_row_nearest [OF tied_assign_row pos] obtain row cd ck c where
    r: "rd two_rows 0 = Inr row" "ck < 3"
      "row_distance exact 1 row (kernels tied) ck = Inr cd"
      "\<forall>j<3. \<exists>d. row_distance exact 1 row (kernels tied) j = Inr d \<and> \<not> flt d cd"
      "\<forall>j<ck. \<exists>d. row_distance exact 1 row (kernels tied) j = Inr d \<and> flt cd d"
      "kernel_followers tied_assigned = (kernel_followers tied)[0 := Some ck]"
      "rd (kernel_follower_count tied) ck = Inr c"
      "kernel_follower_count tied_assigned = (kernel_follower_count tied)[ck := Some (c + 1)]"
      "\<forall>vi<1. \<exists>x acc. rd row vi = Inr x \<and>
              rd2 (kernel_follower_sum tied) ck vi = Inr acc \<and>
              rd2 (kernel_follower_sum tied_assigned) ck vi = Inr (fadd exact acc x)"
      "\<forall>i. i \<noteq> ck \<longrightarrow> kernel_follower_sum tied_assigned ! i = kernel_follower_sum tied ! i"
    and eu: "exact = exact \<longrightarrow>
            (\<forall>xs K. row = fvec xs \<and> length xs = 1 \<and> kernels tied = fmat K \<and> matrix 3 1 K \<and>
               (\<forall>j<3. sum_sq xs (K ! j) \<le> DBL_MAX) \<longrightarrow>
               (\<forall>j<3. euclidean xs (K ! ck) \<le> euclidean xs (K ! j)) \<and>
               (\<forall>j<ck. euclidean xs (K ! ck) < euclidean xs (K ! j)))"
    by (elim exE conjE) (rule that; assumption)
  have ck: "ck = 1" using r(6) by (simp add: tied_assigned_def tied_def)
  have row: "row = fvec [1]" using r(1) row0 by simp
  have mat: "matrix 3 1 ?K" by (simp add: matrix_def)
  have small: "\<forall>j<3. sum_sq [1] (?K ! j) \<le> DBL_MAX"
    by (auto simp: less_Suc_eq numeral_3_eq_3 sum_sq_def DBL_MAX_def)
  from eu [rule_format, OF refl, of "[1]" ?K] row K mat small
  have e: "\<forall>j<3. euclidean [1] (?K ! ck) \<le> euclidean [1] (?K ! j)"
    "\<forall>j<ck. euclidean [1] (?K ! ck) < euclidean [1] (?K ! j)"
    by simp_all
  have e2: "euclidean [1] [2] \<le> euclidean [1] [2 :: real]"
    using e(1) [rule_format, of 2] by (simp add: ck)
  have e0: "euclidean [1] [2] < euclidean [1] [4 :: real]"
    using e(2) [rule_format, of 0] by (simp add: ck)
  from r(4) [rule_format, of 2] obtain d2 where
    d2: "row_distance exact 1 (fvec [1]) (kernels tied) 2 = Inr d2" "\<not> flt d2 cd"
    by (auto simp: row)
  from r(5) [rule_format, of 0] obtain d0 where
    d0: "row_distance exact 1 (fvec [1]) (kernels tied) 0 = Inr d0" "flt cd d0"
    by (auto simp: row ck)
  from r(9) [rule_format, of 0] obtain x acc where
    cell: "rd (fvec [1]) 0 = Inr x" "rd2 (kernel_follower_sum tied) 1 0 = Inr acc"
      "rd2 (kernel_follower_sum tied_assigned) 1 0 = Inr (fadd exact acc x)"
    by (auto simp: row ck)
  have other: "kernel_follower_sum tied_assigned ! 0 = kernel_follower_sum tied ! 0"
    "kernel_follower_sum tied_assigned ! 2 = kernel_follower_sum tied ! 2"
    using r(10) [rule_format, of 0] r(10) [rule_format, of 2] by (simp_all add: ck)
  show ?thesis
    using pos tied_assign_row row0 K r(3,6,7,8) d2 d0 e2 e0 cell other
    unfolding ck row by (intro conjI exI) assumption+
qed

text \<open>
  Claim C3 as stated says that the selected kernel is the one of least Euclidean distance.
  The row \<open>2^1023\<close> is at distance \<open>2^1023\<close> from the kernel 0 and at distance \<open>2^1022\<close>
  from the kernel \<open>2^1022\<close>. Both squared differences overflow, both computed distances
  are plus infinity, and the row goes to the kernel 0, which is the farther one.
\<close>

theorem assign_row_not_nearest:
  "assign_row exact big_rows 1 2 3 far = Inr far_assigned \<and>
   rd big_rows 3 = Inr (fvec [2 ^ 1023]) \<and> kernels far = fmat [[0], [2 ^ 1022]] \<and>
   row_distance exact 1 (fvec [2 ^ 1023]) (kernels far) 0 = Inr PInf \<and>
   row_distance exact 1 (fvec [2 ^ 1023]) (kernels far) 1 = Inr PInf \<and>
   kernel_followers far_assigned ! 3 = Some 0 \<and>
   euclidean [2 ^ 1023] [2 ^ 1022] < euclidean [2 ^ 1023] [0]"
proof -
  have "rd big_rows 3 = Inr (fvec [2 ^ 1023])" by (simp add: big_rows_def fvec_def rd_def)
  moreover have "kernels far = fmat [[0], [2 ^ 1022]]" by (simp add: far_def)
  moreover have "row_distance exact 1 (fvec [2 ^ 1023]) (kernels far) 0 = Inr PInf"
    "row_distance exact 1 (fvec [2 ^ 1023]) (kernels far) 1 = Inr PInf"
    by (simp_all add: row_distance_def far_def fmat_def fvec_def run_simps)
  moreover have "kernel_followers far_assigned ! 3 = Some 0" by (simp add: far_assigned_def)
  moreover have "euclidean [2 ^ 1023] [2 ^ 1022] < euclidean [2 ^ 1023] [0 :: real]"
    by (simp add: euclidean_single)
  ultimately show ?thesis using far_assign_row by simp
qed

section \<open>Sorting the copy of the dataset\<close>

lemma cmpf64v_fvec:
  assumes "i < length x" and "i < length y"
  shows "cmpf64v (fvec x) (fvec y) i =
           Inr (if y ! i < x ! i then 1 else if x ! i < y ! i then - 1 else 0)"
  using assms by (simp add: cmpf64v_def rd_fvec fgt_def)

lemma insert_by_fvec:
  assumes "i < length x" and "\<forall>r\<in>set ys. i < length r"
  shows "insert_by (\<lambda>a b. cmpf64v a b i) (fvec x) (map fvec ys) =
           Inr (map fvec (insort_key (\<lambda>r. r ! i) x ys))"
  using assms(2)
proof (induction ys)
  case Nil
  show ?case by simp
next
  case (Cons y ys)
  then show ?case using assms(1) by (simp add: cmpf64v_fvec not_less)
qed

lemma sort_by_fvec:
  assumes "\<forall>r\<in>set rs. i < length r"
  shows "sort_by (\<lambda>a b. cmpf64v a b i) (map fvec rs) =
           Inr (map fvec (sort_key (\<lambda>r. r ! i) rs))"
  using assms
proof (induction rs)
  case Nil
  show ?case by simp
next
  case (Cons r rs)
  then show ?case by (simp add: insert_by_fvec)
qed

lemma qsort_r_fmat:
  assumes "\<forall>r\<in>set rs. i < length r"
  shows "qsort_r (fmat rs) (length rs) (\<lambda>a b. cmpf64v a b i) =
           Inr (fmat (sort_key (\<lambda>r. r ! i) rs))"
proof -
  have "map the (fmat rs) = map fvec rs" by (simp add: fmat_def comp_def)
  moreover have "None \<notin> set (fmat rs)" by (auto simp: fmat_def)
  ultimately show ?thesis
    using sort_by_fvec [OF assms] by (simp add: qsort_r_def fmat_def comp_def)
qed

text \<open>The column of the sorted copy is the sorted column, whatever the order of the rows was.\<close>

lemma sorted_column:
  assumes "mset rs = mset rows"
  shows "map (\<lambda>r. r ! i) (sort_key (\<lambda>r. r ! i) rs) = sort (map (\<lambda>r. r ! i) rows)"
proof -
  have "mset (map (\<lambda>r. r ! i) (sort_key (\<lambda>r. r ! i) rs)) = mset (map (\<lambda>r. r ! i) rows)"
    using assms by simp
  then show ?thesis
    by (rule properties_for_sort [symmetric]) (rule sorted_sort_key)
qed

section \<open>Allocation and the private copy\<close>

lemma alloc_rows_eq: "alloc_rows k m = Inr (replicate k (Some (malloc m)))"
proof -
  let ?P = "\<lambda>i (a :: double array array).
      length a = k \<and> (\<forall>j<i. a ! j = Some (malloc m))"
  have "\<exists>a. forM [0..<k] (\<lambda>i a. wr a i (malloc m)) (malloc k) = Inr a \<and> ?P k a"
  proof (rule forM_upt_total [where P = ?P])
    show "?P 0 (malloc k)" by (simp add: malloc_def)
  next
    fix i t
    assume "i < k" and "?P i t"
    then show "\<exists>t'. wr t i (malloc m) = Inr t' \<and> ?P (Suc i) t'"
      by (auto simp: wr_def nth_list_update less_Suc_eq)
  qed
  then obtain a where a: "alloc_rows k m = Inr a" and "?P k a"
    by (auto simp: alloc_rows_def)
  then have "a = replicate k (Some (malloc m))"
    by (intro nth_equalityI) auto
  with a show ?thesis by simp
qed

lemma copy_row_eq:
  assumes "i < length a" and "a ! i = Some buf" and "length buf = m"
    and "row < length data_rows" and "data_rows ! row = Some (fvec xs)" and "length xs = m"
  shows "copy_row data_rows row m i a = Inr (a[i := Some (fvec xs)])"
proof -
  let ?P = "\<lambda>j (u :: double array array).
      length u = length a \<and> (\<forall>i'. i' \<noteq> i \<longrightarrow> u ! i' = a ! i') \<and>
      (\<exists>b. u ! i = Some b \<and> length b = m \<and> (\<forall>j'<j. b ! j' = Some (Fin (xs ! j'))))"
  have "\<exists>u. forM [0..<m]
       (\<lambda>j kernels. ebind (rd2 data_rows row j) (\<lambda>v. wr2 kernels i j v)) a = Inr u \<and> ?P m u"
  proof (rule forM_upt_total [where P = ?P])
    show "?P 0 a" using assms by simp
  next
    fix j t
    assume j: "j < m" and P: "?P j t"
    then obtain b where b: "t ! i = Some b" "length b = m"
      "\<forall>j'<j. b ! j' = Some (Fin (xs ! j'))"
      by auto
    have src: "rd2 data_rows row j = Inr (Fin (xs ! j))"
      using assms j by (simp add: rd2_def rd_def fvec_def)
    have dst: "wr2 t i j (Fin (xs ! j)) = Inr (t[i := Some (b[j := Some (Fin (xs ! j))])])"
      using assms(1) P b j by (simp add: wr2_def rd_def wr_def)
    have "?P (Suc j) (t[i := Some (b[j := Some (Fin (xs ! j))])])"
      using assms(1) P b j by (auto simp: nth_list_update less_Suc_eq)
    then show "\<exists>t'. ebind (rd2 data_rows row j) (\<lambda>v. wr2 t i j v) = Inr t' \<and> ?P (Suc j) t'"
      by (simp add: src dst)
  qed
  then obtain u where u: "copy_row data_rows row m i a = Inr u" and P: "?P m u"
    by (auto simp: copy_row_def)
  from P obtain b where b: "u ! i = Some b" "length b = m"
    "\<forall>j'<m. b ! j' = Some (Fin (xs ! j'))"
    by auto
  have "b = fvec xs"
    using b assms(6) by (intro nth_equalityI) (auto simp: fvec_def)
  then have "u = a[i := Some (fvec xs)]"
    using P b assms(1) by (intro nth_equalityI) (auto simp: nth_list_update)
  with u show ?thesis by simp
qed

lemma copy_data_eq:
  assumes "length rows = n" and "\<forall>r\<in>set rows. length r = m"
  shows "copy_data (fmat rows) n m = Inr (fmat rows)"
proof -
  let ?P = "\<lambda>i (cp :: double array array).
      length cp = n \<and> (\<forall>r<i. cp ! r = Some (fvec (rows ! r)))"
  have "\<exists>cp. forM [0..<n]
       (\<lambda>i cp. ebind (wr cp i (malloc m)) (copy_row (fmat rows) i m i)) (malloc n) = Inr cp \<and>
       ?P n cp"
  proof (rule forM_upt_total [where P = ?P])
    show "?P 0 (malloc n)" by (simp add: malloc_def)
  next
    fix i t
    assume i: "i < n" and P: "?P i t"
    have w: "wr t i (malloc m) = Inr (t[i := Some (malloc m)])"
      using i P by (simp add: wr_def)
    have "copy_row (fmat rows) i m i (t[i := Some (malloc m)]) =
          Inr (t[i := Some (malloc m), i := Some (fvec (rows ! i))])"
      using i P assms by (intro copy_row_eq) (auto simp: malloc_def fmat_def)
    moreover have "?P (Suc i) (t[i := Some (fvec (rows ! i))])"
      using i P by (auto simp: nth_list_update less_Suc_eq)
    ultimately show "\<exists>t'. ebind (wr t i (malloc m)) (copy_row (fmat rows) i m i) = Inr t' \<and>
        ?P (Suc i) t'"
      by (simp add: w)
  qed
  then obtain cp where cp: "copy_data (fmat rows) n m = Inr cp" and "?P n cp"
    by (auto simp: copy_data_def)
  then have "cp = fmat rows"
    using assms(1) by (intro nth_equalityI) (auto simp: fmat_def)
  with cp show ?thesis by simp
qed

lemma make_pivots_cells:
  assumes "make_pivots rnd n k = Inr pivots"
  shows "\<forall>j<k. \<exists>p. pivot_of rnd n k j = Inr p \<and> rd pivots j = Inr p"
proof -
  let ?P = "\<lambda>i (a :: nat array). \<forall>j<i. \<exists>p. pivot_of rnd n k j = Inr p \<and> rd a j = Inr p"
  show ?thesis
    using assms unfolding make_pivots_def
  proof (rule forM_upt_inv [where P = ?P])
    show "?P 0 (malloc k)" by simp
  next
    fix i t t'
    assume "i < k" and P: "?P i t"
      and "ebind (pivot_of rnd n k i) (wr t i) = Inr t'"
    then obtain p where p: "pivot_of rnd n k i = Inr p" and w: "wr t i p = Inr t'"
      by (auto simp: ebind_eq_Inr)
    show "?P (Suc i) t'"
      using P p by (auto simp: rd_wr [OF w] less_Suc_eq)
  qed
qed


section \<open>Percentile sampling\<close>

lemma rd2_fmat:
  assumes "rd2 (fmat rs) p i = Inr v"
  shows "p < length rs \<and> i < length (rs ! p) \<and> v = Fin (rs ! p ! i)"
  using assms by (auto simp: rd2_eq_Inr fmat_def fvec_def)

lemma read_pivots_cells:
  assumes "read_pivots pivots cp k i K = Inr K'"
  shows "(\<forall>j<k. \<exists>p v. rd pivots j = Inr p \<and> rd2 cp p i = Inr v \<and> rd2 K' j i = Inr v) \<and>
         (\<forall>j i'. i' \<noteq> i \<longrightarrow> rd2 K' j i' = rd2 K j i')"
proof -
  let ?P = "\<lambda>j (u :: double array array).
      (\<forall>j'<j. \<exists>p v. rd pivots j' = Inr p \<and> rd2 cp p i = Inr v \<and> rd2 u j' i = Inr v) \<and>
      (\<forall>j' i'. i' \<noteq> i \<longrightarrow> rd2 u j' i' = rd2 K j' i')"
  show ?thesis
    using assms unfolding read_pivots_def
  proof (rule forM_upt_inv [where P = ?P])
    show "?P 0 K" by simp
  next
    fix j t t'
    assume "j < k" and P: "?P j t"
      and "ebind (rd pivots j) (\<lambda>pivot.
          ebind (rd2 cp pivot i) (\<lambda>v. wr2 t j i v)) = Inr t'"
    then obtain p v where p: "rd pivots j = Inr p" and v: "rd2 cp p i = Inr v"
      and w: "wr2 t j i v = Inr t'"
      by (auto simp: ebind_eq_Inr)
    note cell = rd2_wr2 [OF w]
    have "\<exists>p v. rd pivots j' = Inr p \<and> rd2 cp p i = Inr v \<and> rd2 t' j' i = Inr v"
      if "j' < Suc j" for j'
    proof (cases "j' = j")
      case True
      then show ?thesis using p v by (simp add: cell)
    next
      case False
      then have "j' < j" using that by simp
      then show ?thesis using P False by (simp add: cell)
    qed
    then show "?P (Suc j) t'" using P by (simp add: cell)
  qed
qed

lemma pivot_of_exact:
  assumes "j < k" and "k < 2 ^ 64" and "n < 2 ^ 64"
  shows "pivot_of exact n k j = Inr (j * n div k)"
proof -
  have big: "(2 :: real) * 2 ^ 64 \<le> DBL_MAX" "(2 :: real) ^ 64 \<le> DBL_MAX" "1 \<le> DBL_MAX"
    by (simp_all add: DBL_MAX_def)
  have rk: "real k < 2 ^ 64" and rn: "real n < 2 ^ 64" and rj: "real j < 2 ^ 64"
    using assms by (simp_all add: of_nat_less_numeral_power_cancel_iff)
  have pos: "0 \<le> real j" "0 \<le> real n" "0 < real k" using assms(1) by simp_all
  have fj: "fin exact (real j) = Fin (real j)"
    using rj big pos by (intro fin_exact_id) linarith+
  have fk: "fin exact (real k) = Fin (real k)"
    using rk big pos by (intro fin_exact_id) linarith+
  have fn: "fin exact (real n) = Fin (real n)"
    using rn big pos by (intro fin_exact_id) linarith+
  have t: "fin exact (2 * real j) = Fin (2 * real j)"
    using rj big pos by (intro fin_exact_id) linarith+
  have b: "fin exact (real k * 2) = Fin (real k * 2)"
    using rk big pos by (intro fin_exact_id) linarith+
  have q: "2 * real j / (real k * 2) = real j / real k" by simp
  have q1: "real j / real k \<le> 1" and q0: "0 \<le> real j / real k"
    using assms(1) by simp_all
  have d: "fin exact (real j / real k) = Fin (real j / real k)"
    using q0 q1 big by (intro fin_exact_id) linarith+
  have "real j / real k * real n \<le> 1 * real n"
    using q1 pos(2) by (rule mult_right_mono)
  then have le: "real j / real k * real n \<le> real n" by simp
  have ge: "0 \<le> real j / real k * real n" using q0 pos by simp
  have x: "fin exact (real j / real k * real n) = Fin (real j / real k * real n)"
    using le ge rn big by (intro fin_exact_id) linarith+
  have fl: "nat \<lfloor>real j / real k * real n\<rfloor> = j * n div k"
  proof -
    have "real j / real k * real n = real (j * n) / real k" by simp
    then show ?thesis by (simp only: floor_divide_of_nat_eq nat_int)
  qed
  have k0: "real k * 2 \<noteq> 0" using pos by simp
  have "pivot_of exact n k j =
        to_size_t (fmul exact (fdiv exact (fmul exact (Fin 2) (fin exact (real j)))
           (fmul exact (fin exact (real k)) (Fin 2))) (fin exact (real n)))"
    by (simp add: pivot_of_def Let_def of_size_t_def)
  also have "\<dots> = to_size_t (Fin (real j / real k * real n))"
    unfolding fj fk fn fmul.simps t b fdiv.simps if_not_P [OF k0] q d x ..
  also have "\<dots> = Inr (j * n div k)"
  proof -
    define y where "y = real j / real k * real n"
    have "- 1 < y" "y < 2 ^ 64" using le ge rn unfolding y_def by linarith+
    then have "to_size_t (Fin y) = Inr (nat \<lfloor>y\<rfloor>)" by simp
    then show ?thesis using fl by (simp only: y_def)
  qed
  finally show ?thesis .
qed

section \<open>Rounding to binary64\<close>

lemmas binary64_simps = binary64_def expo.simps round_even_def Let_def

lemma expo_bounds: "0 < x \<Longrightarrow> 2 powi (expo x) \<le> x \<and> x < 2 powi (expo x + 1)"
proof (induction x rule: expo.induct)
  case (1 x)
  show ?case
  proof (cases "2 \<le> x")
    case True
    then have e: "expo x = expo (x / 2) + 1" using 1(3) by (subst expo.simps) simp
    from 1(1) [OF _ True] 1(3) have "2 powi (expo (x / 2)) \<le> x / 2"
      "x / 2 < 2 powi (expo (x / 2) + 1)"
      by simp_all
    then show ?thesis unfolding e by (simp add: power_int_add)
  next
    case False
    show ?thesis
    proof (cases "x < 1")
      case True
      then have e: "expo x = expo (2 * x) - 1" using 1(3) False by (subst expo.simps) simp
      from 1(2) [OF _ False True] 1(3) have "2 powi (expo (2 * x)) \<le> 2 * x"
        "2 * x < 2 powi (expo (2 * x) + 1)"
        by simp_all
      then show ?thesis unfolding e by (simp add: power_int_add power_int_diff)
    next
      case nlt: False
      then have "expo x = 0" using 1(3) False by (subst expo.simps) simp
      then show ?thesis using False nlt by simp
    qed
  qed
qed

lemma expo_ge: "0 < x \<Longrightarrow> 2 powi a \<le> x \<Longrightarrow> a \<le> expo x"
proof (rule ccontr)
  assume x: "0 < x" and a: "2 powi a \<le> x" and "\<not> a \<le> expo x"
  then have "expo x + 1 \<le> a" by simp
  then have "(2 :: real) powi (expo x + 1) \<le> 2 powi a" by (intro power_int_increasing) simp_all
  with expo_bounds [OF x] a show False by linarith
qed

lemma expo_less: "0 < x \<Longrightarrow> x < 2 powi b \<Longrightarrow> expo x < b"
proof (rule ccontr)
  assume x: "0 < x" and b: "x < 2 powi b" and "\<not> expo x < b"
  then have "b \<le> expo x" by simp
  then have "(2 :: real) powi b \<le> 2 powi (expo x)" by (intro power_int_increasing) simp_all
  with expo_bounds [OF x] b show False by linarith
qed

lemma round_even_error: "\<bar>of_int (round_even y) - y\<bar> \<le> 1 / 2"
proof -
  have "of_int \<lfloor>y\<rfloor> \<le> y" "y < of_int \<lfloor>y\<rfloor> + 1" by linarith+
  then show ?thesis by (auto simp: round_even_def Let_def)
qed

lemma round_even_of_int: "round_even (of_int z) = z"
  by (simp add: round_even_def)

lemma binary64_error:
  assumes "2 powi (- 1022) \<le> \<bar>x\<bar>"
  shows "\<bar>binary64 x - x\<bar> \<le> \<bar>x\<bar> / 2 ^ 53"
proof -
  have pos: "0 < \<bar>x\<bar>" using assms zero_less_power_int [of "2 :: real" "- 1022"] by linarith
  define e where "e = expo \<bar>x\<bar>"
  define u :: real where "u = 2 powi (e - 52)"
  have e: "- 1022 \<le> e" unfolding e_def using pos assms by (rule expo_ge)
  have u: "0 < u" by (simp add: u_def)
  have b: "binary64 x = of_int (round_even (x / u)) * u"
    using e by (simp add: binary64_def Let_def u_def e_def max_def)
  have "binary64 x - x = (of_int (round_even (x / u)) - x / u) * u"
    using u by (simp add: b algebra_simps)
  then have "\<bar>binary64 x - x\<bar> = \<bar>of_int (round_even (x / u)) - x / u\<bar> * u"
    using u by (simp add: abs_mult)
  also have "\<dots> \<le> 1 / 2 * u"
    using round_even_error [of "x / u"] u by (intro mult_right_mono) simp_all
  also have "\<dots> = 2 powi e / 2 ^ 53"
    by (simp add: u_def power_int_diff)
  also have "\<dots> \<le> \<bar>x\<bar> / 2 ^ 53"
    using expo_bounds [OF pos] by (simp add: e_def divide_right_mono)
  finally show ?thesis .
qed

lemma binary64_nat:
  assumes "i < 2 ^ 53"
  shows "binary64 (real i) = real i"
proof (cases "i = 0")
  case True
  then show ?thesis by (simp add: binary64_def expo.simps round_even_of_int [of 0, simplified])
next
  case False
  then have pos: "0 < real i" and one: "2 powi 0 \<le> real i" by simp_all
  define e where "e = expo (real i)"
  have e0: "0 \<le> e" unfolding e_def using pos one by (rule expo_ge)
  have "real i < 2 powi 53" using assms by (simp add: of_nat_less_numeral_power_cancel_iff)
  then have "e < 53" unfolding e_def using pos by (intro expo_less)
  then have n: "e - 52 = - int (nat (52 - e))" by simp
  have "(2 :: real) powi (- int (nat (52 - e))) = 1 / 2 powi int (nat (52 - e))"
    by (rule power_int_minus_divide)
  also have "\<dots> = 1 / 2 ^ nat (52 - e)" by (simp only: power_int_of_nat)
  finally have u: "(2 :: real) powi (e - 52) = 1 / 2 ^ nat (52 - e)" unfolding n .
  have "real i * 2 ^ nat (52 - e) = of_int (int i * 2 ^ nat (52 - e))" by simp
  then have r: "round_even (real i * 2 ^ nat (52 - e)) = int i * 2 ^ nat (52 - e)"
    by (simp only: round_even_of_int)
  have "binary64 (real i) = of_int (int i * 2 ^ nat (52 - e)) * (1 / 2 ^ nat (52 - e))"
    using e0 by (simp add: binary64_def Let_def e_def [symmetric] max_def u r)
  then show ?thesis by simp
qed

lemma faithful_binary64: "faithful binary64"
  unfolding faithful_def using binary64_nat binary64_error by blast

lemma faithful_exact: "faithful exact"
  by (simp add: faithful_def exact_def)

section \<open>The pivot index under rounding\<close>

lemma fin_faithful_nat:
  assumes "faithful rnd" and "i < 2 ^ 53"
  shows "fin rnd (real i) = Fin (real i)"
proof -
  have r: "rnd (real i) = real i" using assms by (simp add: faithful_def)
  have "real i < 2 ^ 53" using assms(2) by (simp add: of_nat_less_numeral_power_cancel_iff)
  moreover have "(2 :: real) ^ 53 \<le> DBL_MAX" by (simp add: DBL_MAX_def)
  ultimately have "real i \<le> DBL_MAX" "- DBL_MAX \<le> real i" by linarith+
  then show ?thesis by (simp add: fin_def Let_def r not_less)
qed

text \<open>The quotient \<open>j * n / k\<close> lies between its floor and the next integer less \<open>1 / k\<close>.\<close>

lemma quotient_bounds:
  assumes "0 < k"
  shows "real (j * n div k) \<le> real (j * n) / real k \<and>
         real (j * n) / real k \<le> real (j * n div k) + 1 - 1 / real k"
proof -
  define c where "c = j * n div k"
  define r where "r = j * n mod k"
  have K: "0 < real k" using assms by simp
  have "j * n = c * k + r" by (simp add: c_def r_def)
  then have "real (j * n) = real c * real k + real r"
    by (metis of_nat_add of_nat_mult)
  then have X: "real (j * n) / real k = real c + real r / real k"
    using K by (simp add: field_simps)
  have "r < k" using assms by (simp add: r_def)
  then have "real r \<le> real k - 1" by linarith
  then have "real r / real k \<le> (real k - 1) / real k" using K by (intro divide_right_mono) simp_all
  also have "\<dots> = 1 - 1 / real k" using K by (simp add: field_simps)
  finally have "real r / real k \<le> 1 - 1 / real k" .
  moreover have "0 \<le> real r / real k" by simp
  ultimately show ?thesis unfolding X c_def [symmetric] by linarith
qed

lemma pivot_of_faithful:
  assumes f: "faithful rnd" and j: "j < k" and k: "k < 2 ^ 25" and n: "n < 2 ^ 25"
  shows "\<exists>p. pivot_of rnd n k j = Inr p \<and> p \<le> j * n div k \<and> j * n div k \<le> p + 1"
proof -
  define c where "c = j * n div k"
  have k0: "0 < k" using j by simp
  have small: "j < 2 ^ 53" "k < 2 ^ 53" "n < 2 ^ 53" "2 * j < 2 ^ 53" "k * 2 < 2 ^ 53"
    using j k n by simp_all
  have zero: "fin rnd 0 = Fin 0" using fin_faithful_nat [OF f, of 0] by simp
  have err: "\<bar>rnd x - x\<bar> \<le> \<bar>x\<bar> / 9007199254740992" if "2 powi (- 1022) \<le> \<bar>x\<bar>" for x
    using f that by (simp add: faithful_def)
  have tiny: "(2 :: real) powi (- 1022) \<le> 1 / 2 ^ 26"
    by (simp add: power_int_minus_divide)
  have big: "(2 :: real) ^ 26 \<le> DBL_MAX" by (simp add: DBL_MAX_def)
  have t: "fmul rnd (Fin 2) (of_size_t rnd j) = Fin (real (2 * j))"
    using fin_faithful_nat [OF f small(4)] by (simp add: of_size_t_def fin_faithful_nat [OF f small(1)])
  have b: "fmul rnd (of_size_t rnd k) (Fin 2) = Fin (real (k * 2))"
    using fin_faithful_nat [OF f small(5)] by (simp add: of_size_t_def fin_faithful_nat [OF f small(2)])
  have nn: "of_size_t rnd n = Fin (real n)"
    by (simp add: of_size_t_def fin_faithful_nat [OF f small(3)])
  define x1 where "x1 = real j / real k"
  have q: "fdiv rnd (Fin (real (2 * j))) (Fin (real (k * 2))) = fin rnd x1"
    using k0 by (simp add: x1_def)
  have piv: "pivot_of rnd n k j = to_size_t (fmul rnd (fin rnd x1) (Fin (real n)))"
    unfolding pivot_of_def Let_def t b nn q ..
  show ?thesis
  proof (cases "j = 0 \<or> n = 0")
    case True
    then have c0: "j * n div k = 0" by auto
    show ?thesis
    proof (cases "j = 0")
      case True
      then have "x1 = 0" by (simp add: x1_def)
      then have "pivot_of rnd n k j = to_size_t (fmul rnd (Fin 0) (Fin (real n)))"
        unfolding piv by (simp only: zero)
      also have "\<dots> = Inr 0" by (simp add: zero)
      finally show ?thesis using c0 by simp
    next
      case False
      then have n0: "n = 0" using True by simp
      have x1: "0 < x1" "x1 \<le> 1" using False j by (simp_all add: x1_def)
      have lo: "2 powi (- 1022) \<le> \<bar>x1\<bar>"
      proof -
        have "real k \<le> 2 ^ 26" using k by (simp add: of_nat_le_numeral_power_cancel_iff)
        then have "1 / 2 ^ 26 \<le> 1 / real k" using k0 by (intro divide_left_mono) simp_all
        also have "\<dots> \<le> x1" using False k0 by (simp add: x1_def divide_right_mono)
        finally show ?thesis using tiny x1 by linarith
      qed
      have "\<bar>rnd x1 - x1\<bar> \<le> x1 / 9007199254740992" using err [OF lo] x1 by simp
      then have "rnd x1 \<le> 2" "0 \<le> rnd x1" using x1 by linarith+
      then have "rnd x1 \<le> DBL_MAX" "- DBL_MAX \<le> rnd x1" using big by simp_all
      then have "fin rnd x1 = Fin (rnd x1)" by (simp add: fin_def Let_def not_less)
      then have "pivot_of rnd n k j = to_size_t (fmul rnd (Fin (rnd x1)) (Fin (real n)))"
        unfolding piv by (simp only:)
      also have "\<dots> = Inr 0" by (simp add: n0 zero)
      finally show ?thesis using c0 by simp
    qed
  next
    case False
    then have j0: "0 < j" and n0: "0 < n" by simp_all
    define N where "N = real n"
    define K where "K = real k"
    define X where "X = real (j * n) / real k"
    define C where "C = real c"
    have K0: "0 < K" and N1: "1 \<le> N" using k0 n0 by (simp_all add: K_def N_def)
    have "N < 2 ^ 25" "K < 2 ^ 25"
      using n k by (simp_all add: N_def K_def of_nat_less_numeral_power_cancel_iff)
    then have lt: "N < 33554432" "K < 33554432" by simp_all
    have "N * K < 33554432 * 33554432"
      using lt K0 N1 by (intro mult_strict_mono) linarith+
    then have NK: "N * K < 1125899906842624" by simp
    have "N \<le> 2 ^ 25" using n by (simp add: N_def of_nat_le_numeral_power_cancel_iff)
    then have Nle: "N \<le> 33554432" by simp
    have Kle: "K \<le> 2 ^ 26" using k by (simp add: K_def of_nat_le_numeral_power_cancel_iff)
    have invK: "3 * N / 9007199254740992 < 1 / K"
    proof -
      have "3 * N * K < 9007199254740992" using NK by simp
      then show ?thesis using K0 by (simp add: field_simps)
    qed
    have x1: "0 < x1" "x1 \<le> 1" using j0 j by (simp_all add: x1_def)
    have X: "X = x1 * N" by (simp add: X_def x1_def N_def)
    have XN: "X \<le> N" "0 \<le> X"
      using x1 N1 mult_right_mono [of x1 1 N] by (simp_all add: X)
    from quotient_bounds [OF k0, of j n] have CX: "C \<le> X" "X \<le> C + 1 - 1 / K"
      by (simp_all add: C_def c_def X_def K_def)
    have lo1: "2 powi (- 1022) \<le> \<bar>x1\<bar>"
    proof -
      have "1 / 2 ^ 26 \<le> 1 / K" using K0 Kle by (intro divide_left_mono) simp_all
      also have "\<dots> \<le> x1" using j0 K0 by (simp add: x1_def K_def divide_right_mono)
      finally show ?thesis using tiny x1 by linarith
    qed
    define q where "q = rnd x1"
    have "\<bar>q - x1\<bar> \<le> x1 / 9007199254740992" using err [OF lo1] x1 by (simp add: q_def)
    then have q: "q \<le> x1 + x1 / 9007199254740992" "x1 - x1 / 9007199254740992 \<le> q" by linarith+
    have q0: "0 < q" "q \<le> 2" using q x1 by linarith+
    have "q \<le> DBL_MAX" "- DBL_MAX \<le> q" using q0 big by simp_all
    then have fq: "fin rnd x1 = Fin q"
      by (simp add: fin_def Let_def not_less q_def [symmetric])
    define x2 where "x2 = q * N"
    have x2_le: "x2 \<le> X + X / 9007199254740992"
    proof -
      have "q * N \<le> (x1 + x1 / 9007199254740992) * N" using q(1) N1 by (intro mult_right_mono) simp_all
      then show ?thesis by (simp add: x2_def X algebra_simps)
    qed
    have x2_ge: "X - X / 9007199254740992 \<le> x2"
    proof -
      have "(x1 - x1 / 9007199254740992) * N \<le> q * N" using q(2) N1 by (intro mult_right_mono) simp_all
      then show ?thesis by (simp add: x2_def X algebra_simps)
    qed
    have x2q: "q \<le> x2" using q0 N1 mult_left_mono [of 1 N q] by (simp add: x2_def)
    have lo2: "2 powi (- 1022) \<le> \<bar>x2\<bar>"
    proof -
      have "1 / 2 ^ 26 \<le> 1 / K" using K0 Kle by (intro divide_left_mono) simp_all
      also have "\<dots> \<le> x1" using j0 K0 by (simp add: x1_def K_def divide_right_mono)
      finally have "1 / 2 ^ 26 \<le> x1" .
      then have "1 / 67108864 \<le> x1" by simp
      then have "1 / 134217728 \<le> q" using q(2) by linarith
      moreover have "(2 :: real) powi (- 1022) \<le> 1 / 134217728"
        by (simp add: power_int_minus_divide)
      ultimately show ?thesis using x2q by linarith
    qed
    define v where "v = rnd x2"
    have x2pos: "0 < x2" using q0 x2q by linarith
    have "\<bar>v - x2\<bar> \<le> x2 / 9007199254740992" using err [OF lo2] x2pos by (simp add: v_def)
    then have v: "v \<le> x2 + x2 / 9007199254740992" "x2 - x2 / 9007199254740992 \<le> v" by linarith+
    have v_up: "v < C + 1"
    proof -
      have "v \<le> X + 3 * X / 9007199254740992" using v(1) x2_le XN(2) by linarith
      also have "\<dots> \<le> X + 3 * N / 9007199254740992" using XN(1) by linarith
      also have "\<dots> < X + 1 / K" using invK by linarith
      also have "\<dots> \<le> C + 1" using CX(2) by linarith
      finally show ?thesis .
    qed
    have v_lo: "C - 1 \<le> v" "0 \<le> v"
    proof -
      have "X - 2 * X / 9007199254740992 \<le> v" using v(2) x2_ge XN(2) by linarith
      moreover have "2 * X / 9007199254740992 \<le> 1" using XN(1) Nle by linarith
      ultimately show "C - 1 \<le> v" using CX(1) by linarith
      show "0 \<le> v" using v(2) x2pos by linarith
    qed
    have CN: "C \<le> N" using CX(1) XN(1) by linarith
    have big2: "(2 :: real) ^ 26 = 67108864" "(2 :: real) ^ 64 = 18446744073709551616" by simp_all
    have "v \<le> DBL_MAX" "- DBL_MAX \<le> v" "- 1 < v" "v < 2 ^ 64"
      using v_up v_lo(2) CN Nle big unfolding big2 by linarith+
    then have fv: "fin rnd x2 = Fin v"
      and "to_size_t (Fin v) = Inr (nat \<lfloor>v\<rfloor>)"
      by (simp_all add: fin_def Let_def not_less v_def [symmetric])
    then have p: "pivot_of rnd n k j = Inr (nat \<lfloor>v\<rfloor>)"
      by (simp add: piv fq x2_def [symmetric] N_def [symmetric] fv)
    from v_up have "v < of_int (int c + 1)" by (simp add: C_def)
    then have "\<lfloor>v\<rfloor> < int c + 1" by (simp only: floor_less_iff)
    then have up: "nat \<lfloor>v\<rfloor> \<le> c" by simp
    from v_lo(1) have "of_int (int c - 1) \<le> v" by (simp add: C_def)
    then have "int c - 1 \<le> \<lfloor>v\<rfloor>" by (simp only: le_floor_iff)
    then have lo: "c \<le> nat \<lfloor>v\<rfloor> + 1" by simp
    show ?thesis using p up lo by (simp add: c_def)
  qed
qed

section \<open>Percentile sampling returns\<close>

lemma make_pivots_total:
  assumes "\<forall>j<k. \<exists>p. pivot_of rnd n k j = Inr p"
  shows "\<exists>pivots. make_pivots rnd n k = Inr pivots"
proof -
  let ?P = "\<lambda>i (a :: nat array). length a = k"
  have "\<exists>a. forM [0..<k] (\<lambda>i pivots. ebind (pivot_of rnd n k i) (wr pivots i)) (malloc k) = Inr a \<and>
      ?P k a"
  proof (rule forM_upt_total [where P = ?P])
    show "?P 0 (malloc k)" by (simp add: malloc_def)
  next
    fix i t
    assume i: "i < k" and P: "?P i t"
    from assms i obtain p where "pivot_of rnd n k i = Inr p" by blast
    then show "\<exists>t'. ebind (pivot_of rnd n k i) (wr t i) = Inr t' \<and> ?P (Suc i) t'"
      using i P by (simp add: wr_def)
  qed
  then show ?thesis by (auto simp: make_pivots_def)
qed

lemma read_pivots_total:
  assumes "length K = k" and "\<forall>j<k. \<exists>b. K ! j = Some b \<and> length b = m"
    and "\<forall>j<k. \<exists>p. rd pivots j = Inr p \<and> p < length rs"
    and "\<forall>r\<in>set rs. i < length r" and "i < m"
  shows "\<exists>K'. read_pivots pivots (fmat rs) k i K = Inr K' \<and> length K' = k \<and>
           (\<forall>j<k. \<exists>b. K' ! j = Some b \<and> length b = m)"
  unfolding read_pivots_def
proof (rule forM_upt_total
    [where P = "\<lambda>j (u :: double array array).
       length u = k \<and> (\<forall>j<k. \<exists>b. u ! j = Some b \<and> length b = m)"])
  show "length K = k \<and> (\<forall>j<k. \<exists>b. K ! j = Some b \<and> length b = m)"
    using assms(1,2) by simp
next
  fix j and t :: "double array array"
  assume j: "j < k"
    and P: "length t = k \<and> (\<forall>j<k. \<exists>b. t ! j = Some b \<and> length b = m)"
  from assms(3) j obtain p where p: "rd pivots j = Inr p" "p < length rs" by blast
  from P j obtain b where b: "t ! j = Some b" "length b = m" by blast
  have "i < length (rs ! p)" using assms(4) p(2) by simp
  then have src: "rd2 (fmat rs) p i = Inr (Fin (rs ! p ! i))"
    using p(2) by (simp add: rd2_def rd_def fmat_def fvec_def)
  have dst: "wr2 t j i (Fin (rs ! p ! i)) = Inr (t[j := Some (b[i := Some (Fin (rs ! p ! i))])])"
    using P j b assms(5) by (simp add: wr2_def rd_def wr_def)
  have "\<exists>b'. t[j := Some (b[i := Some (Fin (rs ! p ! i))])] ! j' = Some b' \<and> length b' = m"
    if "j' < k" for j'
    using P b that by (cases "j' = j") (simp_all add: nth_list_update)
  then show "\<exists>t'. ebind (rd pivots j) (\<lambda>pivot.
          ebind (rd2 (fmat rs) pivot i) (\<lambda>v. wr2 t j i v)) = Inr t' \<and>
        length t' = k \<and> (\<forall>j<k. \<exists>b. t' ! j = Some b \<and> length b = m)"
    using P by (simp add: p(1) src dst)
qed

text \<open>Percentile sampling returns when every pivot index is the index of a row.\<close>

lemma generate_mean_kernels_total:
  assumes "matrix n m rows" and "\<forall>j<k. \<exists>p. pivot_of rnd n k j = Inr p \<and> p < n"
  shows "\<exists>ks. generate_mean_kernels rnd (fmat rows) n m k = Inr ks"
proof -
  from assms(1) have len: "length rows = n" and cols: "\<forall>r\<in>set rows. length r = m"
    by (simp_all add: matrix_def)
  from assms(2) have "\<forall>j<k. \<exists>p. pivot_of rnd n k j = Inr p" by blast
  then obtain pivots where pv: "make_pivots rnd n k = Inr pivots"
    using make_pivots_total by blast
  have piv: "\<forall>j<k. \<exists>p. rd pivots j = Inr p \<and> p < n"
    using make_pivots_cells [OF pv] assms(2) by fastforce
  let ?body = "\<lambda>i (c :: double array array \<times> double array array).
      case c of (cp, K) \<Rightarrow>
        ebind (qsort_r cp n (\<lambda>a b. cmpf64v a b i)) (\<lambda>cp'.
        ebind (read_pivots pivots cp' k i K) (\<lambda>K'. Inr (cp', K')))"
  let ?P = "\<lambda>i (c :: double array array \<times> double array array).
      (\<exists>rs. fst c = fmat rs \<and> mset rs = mset rows) \<and>
      length (snd c) = k \<and> (\<forall>j<k. \<exists>b. snd c ! j = Some b \<and> length b = m)"
  have "\<exists>c. forM [0..<m] ?body (fmat rows, replicate k (Some (malloc m))) = Inr c \<and> ?P m c"
  proof (rule forM_upt_total [where P = ?P])
    show "?P 0 (fmat rows, replicate k (Some (malloc m)))" by (auto simp: malloc_def)
  next
    fix i c
    assume i: "i < m" and P: "?P i c"
    obtain cp0 K where c: "c = (cp0, K)" by (cases c)
    from P c obtain rs where rs: "cp0 = fmat rs" "mset rs = mset rows" by auto
    from P c have shape: "length K = k" "\<forall>j<k. \<exists>b. K ! j = Some b \<and> length b = m"
      by simp_all
    have lrs: "length rs = n" using rs(2) len by (metis size_mset)
    have srs: "set rs = set rows" using rs(2) by (metis set_mset_mset)
    have wide: "\<forall>r\<in>set rs. i < length r" using srs cols i by simp
    let ?rs' = "sort_key (\<lambda>r. r ! i) rs"
    have sorted: "qsort_r cp0 n (\<lambda>a b. cmpf64v a b i) = Inr (fmat ?rs')"
      using qsort_r_fmat [OF wide] by (simp add: rs lrs)
    have wide': "\<forall>r\<in>set ?rs'. i < length r" using wide by simp
    have piv': "\<forall>j<k. \<exists>p. rd pivots j = Inr p \<and> p < length ?rs'" using piv lrs by simp
    from read_pivots_total [OF shape piv' wide' i] obtain K' where
      K': "read_pivots pivots (fmat ?rs') k i K = Inr K'" "length K' = k"
        "\<forall>j<k. \<exists>b. K' ! j = Some b \<and> length b = m"
      by blast
    have "?body i c = Inr (fmat ?rs', K')" by (simp add: c sorted K'(1))
    moreover have "?P (Suc i) (fmat ?rs', K')" using K'(2,3) rs(2) by auto
    ultimately show "\<exists>c'. ?body i c = Inr c' \<and> ?P (Suc i) c'" by blast
  qed
  then obtain c where
    "forM [0..<m] ?body (fmat rows, replicate k (Some (malloc m))) = Inr c" by blast
  then show ?thesis
    unfolding generate_mean_kernels_def
    by (cases c) (simp add: copy_data_eq [OF len cols] alloc_rows_eq pv)
qed

section \<open>The cells of the sampled kernels\<close>

lemma generate_mean_kernels_cells:
  assumes "generate_mean_kernels rnd (fmat rows) n m k = Inr ks" and "matrix n m rows"
  shows "\<forall>j<k. \<forall>i<m. \<exists>p. pivot_of rnd n k j = Inr p \<and> p < n \<and>
           rd2 ks j i = Inr (Fin (sort (map (\<lambda>r. r ! i) rows) ! p))"
proof -
  from assms(2) have len: "length rows = n" and cols: "\<forall>r\<in>set rows. length r = m"
    by (simp_all add: matrix_def)
  let ?body = "\<lambda>pivots i (c :: double array array \<times> double array array).
      case c of (cp, K) \<Rightarrow>
        ebind (qsort_r cp n (\<lambda>a b. cmpf64v a b i)) (\<lambda>cp'.
        ebind (read_pivots pivots cp' k i K) (\<lambda>K'. Inr (cp', K')))"
  from assms(1) obtain pivots cp where
    pv: "make_pivots rnd n k = Inr pivots" and
    loop: "forM [0..<m] (?body pivots) (fmat rows, replicate k (Some (malloc m))) = Inr (cp, ks)"
    unfolding generate_mean_kernels_def
    by (auto simp: copy_data_eq [OF len cols] alloc_rows_eq ebind_eq_Inr)
  note piv = make_pivots_cells [OF pv]
  let ?P = "\<lambda>i (c :: double array array \<times> double array array).
      (\<exists>rs. fst c = fmat rs \<and> mset rs = mset rows) \<and>
      (\<forall>j<k. \<forall>i'<i. \<exists>p. pivot_of rnd n k j = Inr p \<and> p < n \<and>
         rd2 (snd c) j i' = Inr (Fin (sort (map (\<lambda>r. r ! i') rows) ! p)))"
  have "?P m (cp, ks)"
    using loop
  proof (rule forM_upt_inv [where P = ?P])
    show "?P 0 (fmat rows, replicate k (Some (malloc m)))" by auto
  next
    fix i c c'
    assume i: "i < m" and P: "?P i c" and step: "?body pivots i c = Inr c'"
    obtain cp0 K where c: "c = (cp0, K)" by (cases c)
    from P c obtain rs where rs: "cp0 = fmat rs" "mset rs = mset rows" by auto
    have lrs: "length rs = n" using rs(2) len by (metis size_mset)
    have srs: "set rs = set rows" using rs(2) by (metis set_mset_mset)
    have wide: "\<forall>r\<in>set rs. i < length r" using srs cols i by simp
    let ?rs' = "sort_key (\<lambda>r. r ! i) rs"
    have sorted: "qsort_r cp0 n (\<lambda>a b. cmpf64v a b i) = Inr (fmat ?rs')"
      using qsort_r_fmat [OF wide] by (simp add: rs lrs)
    from step obtain K' where rp: "read_pivots pivots (fmat ?rs') k i K = Inr K'"
      and c': "c' = (fmat ?rs', K')"
      by (auto simp: c sorted ebind_eq_Inr)
    note cells = read_pivots_cells [OF rp]
    have ms: "mset ?rs' = mset rows" using rs(2) by simp
    have col: "map (\<lambda>r. r ! i) ?rs' = sort (map (\<lambda>r. r ! i) rows)"
      using rs(2) by (rule sorted_column)
    have new: "\<exists>p. pivot_of rnd n k j = Inr p \<and> p < n \<and>
         rd2 K' j i = Inr (Fin (sort (map (\<lambda>r. r ! i) rows) ! p))" if "j < k" for j
    proof -
      from cells that obtain p v where p: "rd pivots j = Inr p"
        and v: "rd2 (fmat ?rs') p i = Inr v" and k': "rd2 K' j i = Inr v"
        by blast
      from rd2_fmat [OF v] have pn: "p < n" and vv: "v = Fin (?rs' ! p ! i)"
        using lrs by simp_all
      have "?rs' ! p ! i = map (\<lambda>r. r ! i) ?rs' ! p" using pn lrs by simp
      then have "v = Fin (sort (map (\<lambda>r. r ! i) rows) ! p)" using vv col by simp
      moreover have "pivot_of rnd n k j = Inr p" using piv that p by auto
      ultimately show ?thesis using pn k' by simp
    qed
    have old: "\<exists>p. pivot_of rnd n k j = Inr p \<and> p < n \<and>
         rd2 K' j i' = Inr (Fin (sort (map (\<lambda>r. r ! i') rows) ! p))"
      if "j < k" "i' < i" for j i'
      using P c cells that by simp
    have "\<exists>p. pivot_of rnd n k j = Inr p \<and> p < n \<and>
         rd2 K' j i' = Inr (Fin (sort (map (\<lambda>r. r ! i') rows) ! p))"
      if "j < k" "i' < Suc i" for j i'
      using old [of j i'] new [of j] that by (cases "i' = i") simp_all
    then show "?P (Suc i) c'" using ms by (auto simp: c')
  qed
  then show ?thesis by simp
qed

text \<open>
  Claim C8, amended. On a dataset of \<open>n\<close> rows of \<open>m\<close> finite columns, percentile sampling
  sets component \<open>i\<close> of kernel \<open>j\<close> to the value at the pivot index of kernel \<open>j\<close> in the
  sorted column \<open>i\<close> of the dataset, for every dimension on its own. The pivot index is
  the value of \<open>(size_t) ((2.0 * j) / (k * 2.0) * n)\<close> in floating point. Under a rounding
  that keeps the integers below \<open>2^53\<close> and has a relative error of at most \<open>2^(-53)\<close>, as
  binary64 does, and with fewer than \<open>2^25\<close> rows and kernels, the sampling returns and
  the pivot index is \<open>floor (j * n / k)\<close> or the index before it. When nothing is rounded
  it is \<open>floor (j * n / k)\<close>.
\<close>

theorem generate_mean_kernels_percentiles:
  assumes "matrix n m rows"
  shows "(\<forall>ks. generate_mean_kernels rnd (fmat rows) n m k = Inr ks \<longrightarrow>
            (\<forall>j<k. \<exists>p. pivot_of rnd n k j = Inr p \<and>
               (\<forall>i<m. p < n \<and> rd2 ks j i = Inr (Fin (sort (map (\<lambda>r. r ! i) rows) ! p))))) \<and>
         (faithful rnd \<and> 0 < n \<and> n < 2 ^ 25 \<and> k < 2 ^ 25 \<longrightarrow>
            (\<exists>ks. generate_mean_kernels rnd (fmat rows) n m k = Inr ks) \<and>
            (\<forall>j<k. \<exists>p. pivot_of rnd n k j = Inr p \<and> p \<le> j * n div k \<and> j * n div k \<le> p + 1)) \<and>
         (rnd = exact \<and> n < 2 ^ 64 \<and> k < 2 ^ 64 \<longrightarrow>
            (\<forall>j<k. pivot_of rnd n k j = Inr (j * n div k)))"
proof (intro conjI allI impI)
  fix ks j
  assume run: "generate_mean_kernels rnd (fmat rows) n m k = Inr ks" and j: "j < k"
  note cells = generate_mean_kernels_cells [OF run assms]
  show "\<exists>p. pivot_of rnd n k j = Inr p \<and>
          (\<forall>i<m. p < n \<and> rd2 ks j i = Inr (Fin (sort (map (\<lambda>r. r ! i) rows) ! p)))"
  proof (cases "pivot_of rnd n k j")
    case (Inl e)
    from run obtain pivots where "make_pivots rnd n k = Inr pivots"
      unfolding generate_mean_kernels_def by (auto simp: ebind_eq_Inr)
    from make_pivots_cells [OF this] j Inl show ?thesis by auto
  next
    case (Inr p)
    then show ?thesis using cells j by auto
  qed
next
  assume h: "faithful rnd \<and> 0 < n \<and> n < 2 ^ 25 \<and> k < 2 ^ 25"
  have "\<exists>p. pivot_of rnd n k j = Inr p \<and> p < n" if j: "j < k" for j
  proof -
    from pivot_of_faithful [of rnd j k n] h j obtain p where
      p: "pivot_of rnd n k j = Inr p" "p \<le> j * n div k" by blast
    have "j * n < k * n" using j h by simp
    then have "j * n div k < n" by (simp add: less_mult_imp_div_less mult.commute)
    with p show ?thesis by auto
  qed
  then show "\<exists>ks. generate_mean_kernels rnd (fmat rows) n m k = Inr ks"
    using generate_mean_kernels_total [OF assms] by blast
next
  fix j
  assume "faithful rnd \<and> 0 < n \<and> n < 2 ^ 25 \<and> k < 2 ^ 25" and "j < k"
  then show "\<exists>p. pivot_of rnd n k j = Inr p \<and> p \<le> j * n div k \<and> j * n div k \<le> p + 1"
    using pivot_of_faithful [of rnd j k n] by blast
next
  fix j
  assume "rnd = exact \<and> n < 2 ^ 64 \<and> k < 2 ^ 64" and "j < k"
  then show "pivot_of rnd n k j = Inr (j * n div k)"
    using pivot_of_exact [of j k n] by simp
qed

lemma pivot_22_15: "pivot_of binary64 22 22 15 = Inr 14"
  by (simp add: pivot_of_def of_size_t_def fin_def DBL_MAX_def binary64_simps)

lemma ramp_matrix: "matrix 22 1 ramp"
  by (simp add: matrix_def ramp_def)

lemma ramp_column: "sort (map (\<lambda>r. r ! 0) ramp) = map real [0..<22]"
proof -
  have "map (\<lambda>r. r ! 0) ramp = map real [0..<22]" by (simp add: ramp_def comp_def)
  moreover have "sorted (map real [0..<22])"
    by (simp add: sorted_map sorted_wrt_iff_nth_less)
  ultimately show ?thesis by (simp only: sorted_sort_id)
qed

lemma ramp_run: "\<exists>ks. generate_mean_kernels binary64 (fmat ramp) 22 1 22 = Inr ks"
proof -
  have "\<exists>p. pivot_of binary64 22 22 j = Inr p \<and> p < 22" if "j < 22" for j
  proof -
    from pivot_of_faithful [OF faithful_binary64, of j 22 22] that obtain p where
      "pivot_of binary64 22 22 j = Inr p" "p \<le> j * 22 div 22" by auto
    then show ?thesis using that by auto
  qed
  then show ?thesis using generate_mean_kernels_total [OF ramp_matrix] by blast
qed

lemma crossed_rows_matrix: "matrix 2 2 crossed_rows"
  by (simp add: matrix_def crossed_rows_def)

lemma crossed_rows_kernels:
  "generate_mean_kernels exact (fmat crossed_rows) 2 2 2 = Inr (fmat [[1, 1], [2, 2]])"
  by (simp add: init_simps fmat_def fvec_def crossed_rows_def run_simps)

text \<open>
  The theorem on the rows 0 to 21 with 22 kernels in binary64, where the pivot index of
  kernel 15 is 14; and on \<open>crossed_rows\<close> with nothing rounded, where the kernels
  \<open>[1, 1]\<close> and \<open>[2, 2]\<close> take their components from different rows and are no rows of the
  dataset.
\<close>

theorem generate_mean_kernels_percentiles_witness:
  "matrix 22 1 ramp \<and> faithful binary64 \<and>
   (\<exists>ks. generate_mean_kernels binary64 (fmat ramp) 22 1 22 = Inr ks \<and>
      (\<exists>p. pivot_of binary64 22 22 15 = Inr p \<and> p < 22 \<and>
           rd2 ks 15 0 = Inr (Fin (sort (map (\<lambda>r. r ! 0) ramp) ! p)) \<and>
           p \<le> 15 * 22 div 22 \<and> 15 * 22 div 22 \<le> p + 1)) \<and>
   matrix 2 2 crossed_rows \<and>
   generate_mean_kernels exact (fmat crossed_rows) 2 2 2 = Inr (fmat [[1, 1], [2, 2]]) \<and>
   pivot_of exact 2 2 1 = Inr (1 * 2 div 2) \<and>
   (\<exists>p. pivot_of exact 2 2 1 = Inr p \<and>
      rd2 (fmat [[1, 1], [2, 2]]) 1 0 = Inr (Fin (sort (map (\<lambda>r. r ! 0) crossed_rows) ! p)) \<and>
      rd2 (fmat [[1, 1], [2, 2]]) 1 1 = Inr (Fin (sort (map (\<lambda>r. r ! 1) crossed_rows) ! p))) \<and>
   [1, 1] \<notin> set crossed_rows \<and> [2, 2] \<notin> set crossed_rows"
proof -
  note a = generate_mean_kernels_percentiles [OF ramp_matrix, of binary64 22]
  note b = generate_mean_kernels_percentiles [OF crossed_rows_matrix, of exact 2]
  have side: "faithful binary64 \<and> (0 :: nat) < 22 \<and> (22 :: nat) < 2 ^ 25 \<and> (22 :: nat) < 2 ^ 25"
    using faithful_binary64 by simp
  from a [THEN conjunct2, THEN conjunct1, rule_format, OF side]
  obtain ks where ks: "generate_mean_kernels binary64 (fmat ramp) 22 1 22 = Inr ks"
    and bound: "\<forall>j<22. \<exists>p. pivot_of binary64 22 22 j = Inr p \<and> p \<le> j * 22 div 22 \<and>
        j * 22 div 22 \<le> p + 1"
    by blast
  have j: "(15 :: nat) < 22" and i: "(0 :: nat) < 1" by simp_all
  from a [THEN conjunct1, rule_format, OF ks j] obtain p where
    p: "pivot_of binary64 22 22 15 = Inr p"
    and cells: "\<forall>i<1. p < 22 \<and> rd2 ks 15 i = Inr (Fin (sort (map (\<lambda>r. r ! i) ramp) ! p))"
    by blast
  from bound [rule_format, OF j] p have pb: "p \<le> 15 * 22 div 22" "15 * 22 div 22 \<le> p + 1"
    by auto
  from cells [rule_format, OF i] have c: "p < 22"
    "rd2 ks 15 0 = Inr (Fin (sort (map (\<lambda>r. r ! 0) ramp) ! p))"
    by simp_all
  have first: "\<exists>ks. generate_mean_kernels binary64 (fmat ramp) 22 1 22 = Inr ks \<and>
      (\<exists>p. pivot_of binary64 22 22 15 = Inr p \<and> p < 22 \<and>
           rd2 ks 15 0 = Inr (Fin (sort (map (\<lambda>r. r ! 0) ramp) ! p)) \<and>
           p \<le> 15 * 22 div 22 \<and> 15 * 22 div 22 \<le> p + 1)"
    using ks p c pb by blast
  have j2: "(1 :: nat) < 2" by simp
  have side2: "exact = exact \<and> (2 :: nat) < 2 ^ 64 \<and> (2 :: nat) < 2 ^ 64" by simp
  from b [THEN conjunct2, THEN conjunct2, rule_format, OF side2 j2]
  have e: "pivot_of exact 2 2 1 = Inr (1 * 2 div 2)" .
  from b [THEN conjunct1, rule_format, OF crossed_rows_kernels j2] obtain q where
    q: "pivot_of exact 2 2 1 = Inr q"
    and cells2: "\<forall>i<2. q < 2 \<and>
        rd2 (fmat [[1, 1], [2, 2]]) 1 i = Inr (Fin (sort (map (\<lambda>r. r ! i) crossed_rows) ! q))"
    by blast
  have "rd2 (fmat [[1, 1], [2, 2]]) 1 0 = Inr (Fin (sort (map (\<lambda>r. r ! 0) crossed_rows) ! q))"
    "rd2 (fmat [[1, 1], [2, 2]]) 1 1 = Inr (Fin (sort (map (\<lambda>r. r ! 1) crossed_rows) ! q))"
    using cells2 [rule_format, of 0] cells2 [rule_format, of 1] by simp_all
  with q have second: "\<exists>p. pivot_of exact 2 2 1 = Inr p \<and>
      rd2 (fmat [[1, 1], [2, 2]]) 1 0 = Inr (Fin (sort (map (\<lambda>r. r ! 0) crossed_rows) ! p)) \<and>
      rd2 (fmat [[1, 1], [2, 2]]) 1 1 = Inr (Fin (sort (map (\<lambda>r. r ! 1) crossed_rows) ! p))"
    by blast
  have no: "[1, 1] \<notin> set crossed_rows" "[2, 2] \<notin> set crossed_rows"
    by (simp_all add: crossed_rows_def)
  show ?thesis
    using ramp_matrix faithful_binary64 first crossed_rows_matrix crossed_rows_kernels e second no
    by (intro conjI) assumption+
qed

text \<open>
  Claim C8 as stated gives the pivot index \<open>floor ((2 * j) / (2 * k) * n)\<close>. For 22 rows
  and 22 kernels that is 15 for kernel 15. In binary64 the quotient \<open>30 / 44\<close> is rounded
  down, its product with 22 is the double just below 15, and the conversion to \<open>size_t\<close>
  gives 14: kernel 15 of the rows 0 to 21 is 14, not 15.
\<close>

theorem generate_mean_kernels_below_percentile:
  "pivot_of binary64 22 22 15 = Inr 14 \<and>
   nat \<lfloor>(2 * 15) / (2 * 22) * (22 :: real)\<rfloor> = 15 \<and>
   (\<exists>ks. generate_mean_kernels binary64 (fmat ramp) 22 1 22 = Inr ks \<and>
      rd2 ks 15 0 = Inr (Fin 14)) \<and>
   sort (map (\<lambda>r. r ! 0) ramp) ! 14 = 14 \<and> sort (map (\<lambda>r. r ! 0) ramp) ! 15 = 15"
proof -
  from ramp_run obtain ks where ks: "generate_mean_kernels binary64 (fmat ramp) 22 1 22 = Inr ks"
    by blast
  have j: "(15 :: nat) < 22" and i: "(0 :: nat) < 1" by simp_all
  from generate_mean_kernels_cells [OF ks ramp_matrix, rule_format, OF j i] obtain p where
    "pivot_of binary64 22 22 15 = Inr p"
    "rd2 ks 15 0 = Inr (Fin (sort (map (\<lambda>r. r ! 0) ramp) ! p))"
    by blast
  then have "rd2 ks 15 0 = Inr (Fin (sort (map (\<lambda>r. r ! 0) ramp) ! 14))"
    using pivot_22_15 by simp
  moreover have col: "sort (map (\<lambda>r. r ! 0) ramp) ! 14 = 14"
    "sort (map (\<lambda>r. r ! 0) ramp) ! 15 = 15"
    unfolding ramp_column by simp_all
  ultimately have "\<exists>ks. generate_mean_kernels binary64 (fmat ramp) 22 1 22 = Inr ks \<and>
      rd2 ks 15 0 = Inr (Fin 14)"
    using ks by auto
  moreover have "nat \<lfloor>(2 * 15) / (2 * 22) * (22 :: real)\<rfloor> = 15" by simp
  ultimately show ?thesis using pivot_22_15 col by blast
qed

section \<open>The store\<close>

lemma load_p_eq_Inr:
  "load_p h a i = Inr p \<longleftrightarrow>
     (\<exists>obj. objs h a = Some obj \<and> i < length obj \<and> obj ! i = Some (Ptr p))"
proof (cases "objs h a")
  case None
  then show ?thesis by (simp add: load_p_def load_def)
next
  case (Some obj)
  show ?thesis
  proof (cases "rd obj i")
    case (Inl e)
    then show ?thesis using Some by (auto simp: load_p_def load_def rd_def split: if_splits option.splits)
  next
    case (Inr c)
    then have "i < length obj" "obj ! i = Some c" by (simp_all add: rd_eq_Inr)
    then show ?thesis using Some Inr by (cases c) (simp_all add: load_p_def load_def)
  qed
qed

lemma objs_beyond: "brk h \<le> a \<Longrightarrow> objs h a = None"
  by (simp add: objs_def brk_def)

lemma objs_alloc:
  "objs (h @ [x]) a = (if a = brk h then x else objs h a)"
  by (simp add: objs_def brk_def nth_append)

lemma objs_update:
  "objs h a = Some obj \<Longrightarrow> objs (h[a := x]) a' = (if a' = a then x else objs h a')"
  by (auto simp: objs_def split: if_splits)

lemma brk_update: "brk (h[a := x]) = brk h"
  by (simp add: brk_def)

lemma keeps_alloc:
  assumes "keeps B h0 h" and "alloc n h = (a, h')"
  shows "keeps B h0 h' \<and> B \<le> a"
proof -
  from assms(2) have a: "a = brk h"
    and h': "\<And>a'. objs h' a' = (if a' = brk h then Some (malloc n) else objs h a')"
    and b': "brk h' = Suc (brk h)"
    by (auto simp: alloc_def objs_alloc brk_def)
  have "B \<le> p" if "B \<le> a'" "objs h' a' = Some obj" "i < length obj" "obj ! i = Some (Ptr p)"
    for a' obj i p
  proof (cases "a' = brk h")
    case True
    then have "obj = malloc n" using that(2) by (simp add: h')
    then show ?thesis using that(3,4) by (simp add: malloc_def)
  next
    case False
    then have "objs h a' = Some obj" using that(2) by (simp add: h')
    then show ?thesis using assms(1) that unfolding keeps_def by blast
  qed
  moreover have "B \<le> brk h" "\<forall>a<B. objs h a = objs h0 a"
    using assms(1) by (simp_all add: keeps_def)
  ultimately show ?thesis unfolding keeps_def a by (auto simp: h' b')
qed

lemma keeps_store_cell:
  assumes "keeps B h0 h" and "B \<le> a" and "\<forall>p. c = Ptr p \<longrightarrow> B \<le> p"
    and "store_cell h a i c = Inr h'"
  shows "keeps B h0 h'"
proof -
  from assms(4) obtain obj where obj: "objs h a = Some obj" "i < length obj"
    and e: "h' = h[a := Some (obj[i := Some c])]"
    by (auto simp: store_cell_def ebind_eq_Inr wr_eq_Inr split: option.splits)
  have h': "objs h' a' = (if a' = a then Some (obj[i := Some c]) else objs h a')" for a'
    unfolding e using obj(1) by (rule objs_update)
  have b': "brk h' = brk h" by (simp add: e brk_update)
  have "B \<le> p" if "B \<le> a'" "objs h' a' = Some obj'" "j < length obj'" "obj' ! j = Some (Ptr p)"
    for a' obj' j p
  proof (cases "a' = a")
    case True
    then have o: "obj' = obj[i := Some c]" using that(2) by (simp add: h')
    show ?thesis
    proof (cases "j = i")
      case True
      then show ?thesis using that(3,4) assms(3) obj by (simp add: o)
    next
      case False
      then have "obj ! j = Some (Ptr p)" "j < length obj" using that(3,4) by (simp_all add: o)
      then show ?thesis using assms(1,2) obj unfolding keeps_def by blast
    qed
  next
    case False
    then have "objs h a' = Some obj'" using that(2) by (simp add: h')
    then show ?thesis using assms(1) that unfolding keeps_def by blast
  qed
  moreover have "B \<le> brk h" "\<forall>a<B. objs h a = objs h0 a"
    using assms(1) by (simp_all add: keeps_def)
  ultimately show ?thesis using assms(2) unfolding keeps_def by (auto simp: h' b')
qed

lemma keeps_load_p:
  assumes "keeps B h0 h" and "B \<le> a" and "load_p h a i = Inr p"
  shows "B \<le> p"
proof -
  from assms(3) obtain obj where "objs h a = Some obj" "i < length obj" "obj ! i = Some (Ptr p)"
    by (auto simp: load_p_eq_Inr)
  then show ?thesis using assms(1,2) unfolding keeps_def by blast
qed

lemma keeps_release:
  assumes "keeps B h0 h" and "B \<le> a" and "release a h = Inr h'"
  shows "keeps B h0 h'"
proof -
  from assms(3) obtain obj where obj: "objs h a = Some obj" and e: "h' = h[a := None]"
    by (auto simp: release_def split: option.splits)
  have h': "objs h' a' = (if a' = a then None else objs h a')" for a'
    unfolding e using obj by (rule objs_update)
  have b': "brk h' = brk h" by (simp add: e brk_update)
  have "B \<le> p" if "B \<le> a'" "objs h' a' = Some obj" "i < length obj" "obj ! i = Some (Ptr p)"
    for a' obj i p
  proof -
    have "objs h a' = Some obj" using that(2) by (cases "a' = a") (simp_all add: h')
    then show ?thesis using assms(1) that unfolding keeps_def by blast
  qed
  moreover have "B \<le> brk h" "\<forall>a<B. objs h a = objs h0 a"
    using assms(1) by (simp_all add: keeps_def)
  ultimately show ?thesis using assms(2) unfolding keeps_def by (auto simp: h' b')
qed

lemma keeps_store_d2:
  assumes "keeps B h0 h" and "B \<le> a" and "store_d2 h a i j v = Inr h'"
  shows "keeps B h0 h'"
proof -
  from assms(3) obtain row where row: "load_p h a i = Inr row"
    and w: "store_cell h row j (Dbl v) = Inr h'"
    by (auto simp: store_d2_def ebind_eq_Inr)
  have "B \<le> row" using assms(1,2) row by (rule keeps_load_p)
  with assms(1) show ?thesis using _ w by (rule keeps_store_cell) simp
qed

section \<open>The initialisers write to their own objects only\<close>

lemma keeps_alloc_store:
  assumes "keeps B h0 h" and "B \<le> a"
    and "(let (r, h') = alloc m h in store_cell h' a i (Ptr r)) = Inr h''"
  shows "keeps B h0 h''"
proof -
  obtain r h' where al: "alloc m h = (r, h')" by (cases "alloc m h")
  with assms(3) have w: "store_cell h' a i (Ptr r) = Inr h''" by simp
  from keeps_alloc [OF assms(1) al] have "keeps B h0 h'" "B \<le> r" by simp_all
  moreover have "\<forall>p. Ptr r = Ptr p \<longrightarrow> B \<le> p" using \<open>B \<le> r\<close> by simp
  ultimately show ?thesis using assms(2) w keeps_store_cell [of B h0 h' a "Ptr r" i h'']
    by blast
qed

lemma alloc_rows_st_keeps:
  assumes "keeps B h0 h" and "alloc_rows_st k m h = Inr (a, h')"
  shows "keeps B h0 h' \<and> B \<le> a"
proof -
  obtain a1 h1 where al: "alloc k h = (a1, h1)" by (cases "alloc k h")
  with assms(2) have a: "a1 = a"
    and loop: "forM [0..<k] (\<lambda>i h. let (r, h') = alloc m h in store_cell h' a i (Ptr r)) h1 = Inr h'"
    by (auto simp: alloc_rows_st_def ebind_eq_Inr)
  from keeps_alloc [OF assms(1) al] have k1: "keeps B h0 h1" and fresh: "B \<le> a"
    by (simp_all add: a)
  have "keeps B h0 h'"
    using loop k1 by (rule forM_inv) (rule keeps_alloc_store [OF _ fresh])
  then show ?thesis using fresh by simp
qed

lemma copy_row_st_keeps:
  assumes "keeps B h0 h" and "B \<le> ks" and "copy_row_st data_rows row m i ks h = Inr h'"
  shows "keeps B h0 h'"
  using assms(3,1) unfolding copy_row_st_def
proof (rule forM_inv)
  fix j t t'
  assume k: "keeps B h0 t"
    and "ebind (load_d2 t data_rows row j) (\<lambda>v. store_d2 t ks i j v) = Inr t'"
  then obtain v where "store_d2 t ks i j v = Inr t'" by (auto simp: ebind_eq_Inr)
  with k assms(2) show "keeps B h0 t'" by (rule keeps_store_d2)
qed

lemma forMo_inv:
  assumes "forMo is f s = Some (Inr s')" and "I s"
    and "\<And>i t t'. i \<in> set is \<Longrightarrow> I t \<Longrightarrow> f i t = Some (Inr t') \<Longrightarrow> I t'"
  shows "I s'"
  using assms
proof (induction "is" arbitrary: s)
  case Nil
  then show ?case by simp
next
  case (Cons i "is")
  from Cons.prems(1) obtain t where t: "f i s = Some (Inr t)" and rest: "forMo is f t = Some (Inr s')"
    by (auto split: option.splits sum.splits)
  have "I t" using Cons.prems(2,3) t by auto
  then show ?case using Cons.IH [OF rest] Cons.prems(3) by auto
qed

lemma pick_random_kernels_st_keeps:
  assumes "keeps B h0 h"
    and "pick_random_kernels_st rnd rng data_rows n m k h = Some (Inr (ks, h'))"
  shows "keeps B h0 h' \<and> B \<le> ks"
proof -
  from assms(2) obtain ks1 h1 where ar: "alloc_rows_st k m h = Inr (ks1, h1)"
    by (auto simp: pick_random_kernels_st_def split: sum.splits)
  obtain previous h2 where al: "alloc k h1 = (previous, h2)" by (cases "alloc k h1")
  let ?body = "\<lambda>i (c :: store \<times> nat). case c of (h, c) \<Rightarrow>
                  case pick_row_st rnd rng n h previous i c of
                    None \<Rightarrow> None
                  | Some (Inl e) \<Rightarrow> Some (Inl e)
                  | Some (Inr (row, c')) \<Rightarrow>
                      Some
                        (ebind (store_cell h previous i (Size row)) (\<lambda>h'.
                         ebind (copy_row_st data_rows row m i ks1 h') (\<lambda>h''.
                         Inr (h'', c'))))"
  from assms(2) have
    "(case forMo [0..<k] ?body (h2, 0) of
        None \<Rightarrow> None
      | Some (Inl e) \<Rightarrow> Some (Inl e)
      | Some (Inr (h3, c)) \<Rightarrow> Some (ebind (release previous h3) (\<lambda>h4. Inr (ks1, h4)))) =
     Some (Inr (ks, h'))"
    by (simp add: pick_random_kernels_st_def ar al)
  then obtain h3 c where
    loop: "forMo [0..<k] ?body (h2, 0) = Some (Inr (h3, c))" and
    fin: "ebind (release previous h3) (\<lambda>h4. Inr (ks1, h4)) = Inr (ks, h')"
    by (cases "forMo [0..<k] ?body (h2, 0)") (auto split: sum.splits)
  from alloc_rows_st_keeps [OF assms(1) ar] have k1: "keeps B h0 h1" and fk: "B \<le> ks1"
    by simp_all
  from keeps_alloc [OF k1 al] have k2: "keeps B h0 h2" and fp: "B \<le> previous" by simp_all
  have "keeps B h0 (fst (h3, c))"
    using loop
  proof (rule forMo_inv [where I = "\<lambda>c. keeps B h0 (fst c)"])
    show "keeps B h0 (fst (h2, 0 :: nat))" using k2 by simp
  next
    fix i t t'
    assume I: "keeps B h0 (fst t)" and step: "?body i t = Some (Inr t')"
    obtain ht ct where t: "t = (ht, ct)" by (cases t)
    from step obtain row c' where
      "ebind (store_cell ht previous i (Size row)) (\<lambda>h'.
         ebind (copy_row_st data_rows row m i ks1 h') (\<lambda>h''. Inr (h'', c'))) = Inr t'"
      by (cases "pick_row_st rnd rng n ht previous i ct") (auto simp: t split: sum.splits)
    then obtain ha where
      w: "store_cell ht previous i (Size row) = Inr ha" and
      cp: "copy_row_st data_rows row m i ks1 ha = Inr (fst t')"
      by (auto simp: ebind_eq_Inr)
    have "keeps B h0 ha"
      using I fp w keeps_store_cell [of B h0 ht previous "Size row" i ha] by (simp add: t)
    then show "keeps B h0 (fst t')" using fk cp by (rule copy_row_st_keeps)
  qed
  then have k3: "keeps B h0 h3" by simp
  from fin obtain h4 where r: "release previous h3 = Inr h4" and e: "ks = ks1" "h' = h4"
    by (auto simp: ebind_eq_Inr)
  from keeps_release [OF k3 fp r] show ?thesis using fk e by simp
qed

lemma insert_by_set: "insert_by cmp x ys = Inr zs \<Longrightarrow> set zs = insert x (set ys)"
proof (induction ys arbitrary: zs)
  case Nil
  then show ?case by auto
next
  case (Cons y ys)
  then show ?case by (auto simp: ebind_eq_Inr split: if_splits)
qed

lemma sort_by_set: "sort_by cmp xs = Inr ys \<Longrightarrow> set ys = set xs"
proof (induction xs arbitrary: ys)
  case Nil
  then show ?case by simp
next
  case (Cons x xs)
  then show ?case by (auto simp: ebind_eq_Inr dest!: insert_by_set)
qed

lemma qsort_r_st_keeps:
  assumes "keeps B h0 h" and "B \<le> base" and "qsort_r_st h base n cmp = Inr h'"
  shows "keeps B h0 h'"
proof -
  from assms(3) obtain ps qs where
    rdl: "forM [0..<n] (\<lambda>i ps. ebind (load_p h base i) (\<lambda>p. Inr (ps @ [p]))) [] = Inr ps" and
    srt: "sort_by (cmp h) ps = Inr qs" and
    wrl: "forM [0..<n] (\<lambda>i h. ebind (rd (map Some qs) i) (\<lambda>q. store_cell h base i (Ptr q))) h = Inr h'"
    by (auto simp: qsort_r_st_def ebind_eq_Inr)
  have "\<forall>p\<in>set ps. B \<le> p"
    using rdl
  proof (rule forM_inv [where I = "\<lambda>ps. \<forall>p\<in>set ps. B \<le> p"])
    show "\<forall>p\<in>set ([] :: nat list). B \<le> p" by simp
  next
    fix i t t'
    assume I: "\<forall>p\<in>set t. B \<le> p"
      and "ebind (load_p h base i) (\<lambda>p. Inr (t @ [p])) = Inr t'"
    then obtain p where p: "load_p h base i = Inr p" and t': "t' = t @ [p]"
      by (auto simp: ebind_eq_Inr)
    from keeps_load_p [OF assms(1,2) p] I show "\<forall>p\<in>set t'. B \<le> p" by (simp add: t')
  qed
  then have fresh: "\<forall>q\<in>set qs. B \<le> q" using sort_by_set [OF srt] by simp
  show ?thesis
    using wrl assms(1)
  proof (rule forM_inv)
    fix i t t'
    assume k: "keeps B h0 t"
      and "ebind (rd (map Some qs) i) (\<lambda>q. store_cell t base i (Ptr q)) = Inr t'"
    then obtain q where q: "rd (map Some qs) i = Inr q" and w: "store_cell t base i (Ptr q) = Inr t'"
      by (auto simp: ebind_eq_Inr)
    from q have "q \<in> set qs" by (auto simp: rd_eq_Inr)
    then have "B \<le> q" using fresh by simp
    then show "keeps B h0 t'"
      using k assms(2) w keeps_store_cell [of B h0 t base "Ptr q" i t'] by simp
  qed
qed

lemma generate_mean_kernels_st_keeps:
  assumes "keeps B h0 h" and "generate_mean_kernels_st rnd data_rows n m k h = Inr (ks, h')"
  shows "keeps B h0 h' \<and> B \<le> ks"
proof -
  obtain cp h1 where al: "alloc n h = (cp, h1)" by (cases "alloc n h")
  from keeps_alloc [OF assms(1) al] have k1: "keeps B h0 h1" and fc: "B \<le> cp" by simp_all
  from assms(2) obtain h2 ks1 h3 where
    copy: "forM [0..<n]
           (\<lambda>i h. let (r, h') = alloc m h in
              ebind (store_cell h' cp i (Ptr r)) (copy_row_st data_rows i m i cp))
           h1 = Inr h2" and
    ar: "alloc_rows_st k m h2 = Inr (ks1, h3)"
    by (auto simp: generate_mean_kernels_st_def al ebind_eq_Inr)
  obtain pivots h4 where ap: "alloc k h3 = (pivots, h4)" by (cases "alloc k h3")
  from assms(2) copy ar ap obtain h5 h6 h7 h8 where
    pv: "forM [0..<k]
            (\<lambda>i h. ebind (pivot_of rnd n k i) (\<lambda>p. store_cell h pivots i (Size p))) h4 = Inr h5" and
    main: "forM [0..<m]
            (\<lambda>i h.
               ebind (qsort_r_st h cp n (\<lambda>h a b. cmpf64v_st h a b i)) (\<lambda>h'.
               forM [0..<k]
                 (\<lambda>j h.
                    ebind (load_n h pivots j) (\<lambda>pivot.
                    ebind (load_d2 h cp pivot i) (\<lambda>v. store_d2 h ks1 j i v)))
                 h'))
            h5 = Inr h6" and
    r1: "release pivots h6 = Inr h7" and
    r2: "forM [0..<n] (\<lambda>i h. ebind (load_p h cp i) (\<lambda>r. release r h)) h7 = Inr h8" and
    r3: "release cp h8 = Inr h'" and e: "ks = ks1"
    by (auto simp: generate_mean_kernels_st_def al ebind_eq_Inr)
  have k2: "keeps B h0 h2"
    using copy k1
  proof (rule forM_inv)
    fix i t t'
    assume k: "keeps B h0 t"
      and step: "(let (r, h') = alloc m t in
              ebind (store_cell h' cp i (Ptr r)) (copy_row_st data_rows i m i cp)) = Inr t'"
    obtain r ta where a: "alloc m t = (r, ta)" by (cases "alloc m t")
    with step obtain tb where w: "store_cell ta cp i (Ptr r) = Inr tb"
      and c: "copy_row_st data_rows i m i cp tb = Inr t'"
      by (auto simp: ebind_eq_Inr)
    have "(let (r, h') = alloc m t in store_cell h' cp i (Ptr r)) = Inr tb"
      using a w by simp
    from keeps_alloc_store [OF k fc this] fc c show "keeps B h0 t'"
      by (rule copy_row_st_keeps)
  qed
  from alloc_rows_st_keeps [OF k2 ar] have k3: "keeps B h0 h3" and fk: "B \<le> ks1" by simp_all
  from keeps_alloc [OF k3 ap] have k4: "keeps B h0 h4" and fp: "B \<le> pivots" by simp_all
  have k5: "keeps B h0 h5"
    using pv k4
  proof (rule forM_inv)
    fix i t t'
    assume k: "keeps B h0 t"
      and "ebind (pivot_of rnd n k i) (\<lambda>p. store_cell t pivots i (Size p)) = Inr t'"
    then obtain p where "store_cell t pivots i (Size p) = Inr t'" by (auto simp: ebind_eq_Inr)
    then show "keeps B h0 t'"
      using k fp keeps_store_cell [of B h0 t pivots "Size p" i t'] by simp
  qed
  have k6: "keeps B h0 h6"
    using main k5
  proof (rule forM_inv)
    fix i t t'
    assume k: "keeps B h0 t"
      and "ebind (qsort_r_st t cp n (\<lambda>h a b. cmpf64v_st h a b i)) (\<lambda>h'.
               forM [0..<k]
                 (\<lambda>j h.
                    ebind (load_n h pivots j) (\<lambda>pivot.
                    ebind (load_d2 h cp pivot i) (\<lambda>v. store_d2 h ks1 j i v)))
                 h') = Inr t'"
    then obtain ta where q: "qsort_r_st t cp n (\<lambda>h a b. cmpf64v_st h a b i) = Inr ta"
      and rp: "forM [0..<k]
                 (\<lambda>j h.
                    ebind (load_n h pivots j) (\<lambda>pivot.
                    ebind (load_d2 h cp pivot i) (\<lambda>v. store_d2 h ks1 j i v)))
                 ta = Inr t'"
      by (auto simp: ebind_eq_Inr)
    from qsort_r_st_keeps [OF k fc q] have ka: "keeps B h0 ta" .
    show "keeps B h0 t'"
      using rp ka
    proof (rule forM_inv)
      fix j u u'
      assume ku: "keeps B h0 u"
        and "ebind (load_n u pivots j) (\<lambda>pivot.
                    ebind (load_d2 u cp pivot i) (\<lambda>v. store_d2 u ks1 j i v)) = Inr u'"
      then obtain v where "store_d2 u ks1 j i v = Inr u'" by (auto simp: ebind_eq_Inr)
      with ku fk show "keeps B h0 u'" by (rule keeps_store_d2)
    qed
  qed
  from keeps_release [OF k6 fp r1] have k7: "keeps B h0 h7" .
  have k8: "keeps B h0 h8"
    using r2 k7
  proof (rule forM_inv)
    fix i t t'
    assume k: "keeps B h0 t"
      and "ebind (load_p t cp i) (\<lambda>r. release r t) = Inr t'"
    then obtain r where r: "load_p t cp i = Inr r" and rel: "release r t = Inr t'"
      by (auto simp: ebind_eq_Inr)
    from keeps_load_p [OF k fc r] have "B \<le> r" .
    with k show "keeps B h0 t'" using rel by (rule keeps_release)
  qed
  from keeps_release [OF k8 fc r3] show ?thesis using fk e by simp
qed


section \<open>The loop writes to its own objects only\<close>

lemma snapshot_st_keeps:
  assumes "keeps B h0 h" and "fresh_arrays B a" and "snapshot_st a k m h = Inr h'"
  shows "keeps B h0 h'"
proof -
  have fp: "B \<le> prev_means_at a" using assms(2) by (simp add: fresh_arrays_def)
  have inner: "keeps B h0 t'"
    if "forM [0..<m] (\<lambda>vi h.
         ebind (load_d2 h (kernels_at a) ki vi) (\<lambda>v. store_d2 h (prev_means_at a) ki vi v)) t =
        Inr t'" and "keeps B h0 t" for ki t t'
    using that
  proof (rule forM_inv)
    fix vi u u'
    assume ku: "keeps B h0 u"
      and "ebind (load_d2 u (kernels_at a) ki vi) (\<lambda>v. store_d2 u (prev_means_at a) ki vi v) =
           Inr u'"
    then obtain v where "store_d2 u (prev_means_at a) ki vi v = Inr u'"
      by (auto simp: ebind_eq_Inr)
    with ku fp show "keeps B h0 u'" by (rule keeps_store_d2)
  qed
  show ?thesis
    using assms(3,1) unfolding snapshot_st_def by (rule forM_inv) (rule inner)
qed

lemma reset_st_keeps:
  assumes "keeps B h0 h" and "fresh_arrays B a" and "reset_st a k m h = Inr h'"
  shows "keeps B h0 h'"
proof -
  have fc: "B \<le> count_at a" and fs: "B \<le> sum_at a"
    using assms(2) by (simp_all add: fresh_arrays_def)
  show ?thesis
    using assms(3,1) unfolding reset_st_def
  proof (rule forM_inv)
    fix ki t t'
    assume k: "keeps B h0 t"
      and "ebind (store_cell t (count_at a) ki (Size 0))
         (forM [0..<m] (\<lambda>vi h. store_d2 h (sum_at a) ki vi (Fin 0))) = Inr t'"
    then obtain ta where w: "store_cell t (count_at a) ki (Size 0) = Inr ta"
      and l: "forM [0..<m] (\<lambda>vi h. store_d2 h (sum_at a) ki vi (Fin 0)) ta = Inr t'"
      by (auto simp: ebind_eq_Inr)
    have ka: "keeps B h0 ta"
      using k fc w keeps_store_cell [of B h0 t "count_at a" "Size 0" ki ta] by simp
    show "keeps B h0 t'"
      using l ka by (rule forM_inv) (rule keeps_store_d2 [OF _ fs])
  qed
qed

lemma assign_row_st_keeps:
  assumes "keeps B h0 h" and "fresh_arrays B a"
    and "assign_row_st rnd a data_rows m k ri h = Inr h'"
  shows "keeps B h0 h'"
proof -
  have ff: "B \<le> followers_at a" and fc: "B \<le> count_at a" and fs: "B \<le> sum_at a"
    using assms(2) by (simp_all add: fresh_arrays_def)
  from assms(3) obtain row ck h1 c h2 where
    w1: "store_cell h (followers_at a) ri (Size ck) = Inr h1" and
    w2: "store_cell h1 (count_at a) ck (Size (c + 1)) = Inr h2" and
    l: "forM [0..<m] (\<lambda>vi h.
          ebind (load_d h row vi) (\<lambda>x.
          ebind (load_d2 h (sum_at a) ck vi) (\<lambda>acc.
          store_d2 h (sum_at a) ck vi (fadd rnd acc x)))) h2 = Inr h'"
    unfolding assign_row_st_def by (auto simp: ebind_eq_Inr)
  have k1: "keeps B h0 h1"
    using assms(1) ff w1 keeps_store_cell [of B h0 h "followers_at a" "Size ck" ri h1] by simp
  have k2: "keeps B h0 h2"
    using k1 fc w2 keeps_store_cell [of B h0 h1 "count_at a" "Size (c + 1)" ck h2] by simp
  show ?thesis
    using l k2
  proof (rule forM_inv)
    fix vi u u'
    assume ku: "keeps B h0 u"
      and "ebind (load_d u row vi) (\<lambda>x.
          ebind (load_d2 u (sum_at a) ck vi) (\<lambda>acc.
          store_d2 u (sum_at a) ck vi (fadd rnd acc x))) = Inr u'"
    then obtain v where "store_d2 u (sum_at a) ck vi v = Inr u'"
      by (auto simp: ebind_eq_Inr)
    with ku fs show "keeps B h0 u'" by (rule keeps_store_d2)
  qed
qed

lemma update_st_keeps:
  assumes "keeps B h0 h" and "fresh_arrays B a" and "update_st rnd a k m h = Inr h'"
  shows "keeps B h0 h'"
proof -
  have fk: "B \<le> kernels_at a" using assms(2) by (simp add: fresh_arrays_def)
  have inner: "keeps B h0 t'"
    if "forM [0..<m] (\<lambda>vi h.
         ebind (load_n h (count_at a) ki) (\<lambda>c.
         if c \<le> 0 then Inr h
         else
           ebind (load_d2 h (sum_at a) ki vi) (\<lambda>sm.
           store_d2 h (kernels_at a) ki vi (fdiv rnd sm (of_size_t rnd c))))) t = Inr t'"
      and "keeps B h0 t" for ki t t'
    using that
  proof (rule forM_inv)
    fix vi u u'
    assume ku: "keeps B h0 u"
      and "ebind (load_n u (count_at a) ki) (\<lambda>c.
         if c \<le> 0 then Inr u
         else
           ebind (load_d2 u (sum_at a) ki vi) (\<lambda>sm.
           store_d2 u (kernels_at a) ki vi (fdiv rnd sm (of_size_t rnd c)))) = Inr u'"
    then consider "u' = u" | v where "store_d2 u (kernels_at a) ki vi v = Inr u'"
      by (auto simp: ebind_eq_Inr split: if_splits)
    then show "keeps B h0 u'"
    proof cases
      case 1
      then show ?thesis using ku by simp
    next
      case 2
      with ku fk show ?thesis by (rule keeps_store_d2)
    qed
  qed
  show ?thesis
    using assms(3,1) unfolding update_st_def by (rule forM_inv) (rule inner)
qed

lemma iteration_st_keeps:
  assumes "keeps B h0 h" and "fresh_arrays B a"
    and "iteration_st rnd a data_rows n m k h = Inr (h', mv)"
  shows "keeps B h0 h'"
proof -
  from assms(3) obtain h1 h2 h3 where
    1: "snapshot_st a k m h = Inr h1" and 2: "reset_st a k m h1 = Inr h2" and
    3: "forM [0..<n] (assign_row_st rnd a data_rows m k) h2 = Inr h3" and
    4: "update_st rnd a k m h3 = Inr h'"
    unfolding iteration_st_def by (auto simp: ebind_eq_Inr)
  note k1 = snapshot_st_keeps [OF assms(1,2) 1]
  note k2 = reset_st_keeps [OF k1 assms(2) 2]
  have k3: "keeps B h0 h3"
    using 3 k2 by (rule forM_inv) (rule assign_row_st_keeps [OF _ assms(2)])
  from update_st_keeps [OF k3 assms(2) 4] show ?thesis .
qed

lemma k_means_loop_st_keeps:
  assumes "k_means_loop_st rnd a data_rows n m k h mv its = Some (Inr h')"
    and "keeps B h0 h" and "fresh_arrays B a"
  shows "keeps B h0 h'"
proof -
  let ?Q = "\<lambda>(rnd :: rounding) (a :: arrays) (data_rows :: nat) (n :: nat) (m :: nat) (k :: nat)
      (h :: store) (mv :: double) (its :: nat) (res :: error + store).
      \<forall>h'. res = Inr h' \<longrightarrow> keeps B h0 h \<longrightarrow> fresh_arrays B a \<longrightarrow> keeps B h0 h'"
  have "?Q rnd a data_rows n m k h mv its (Inr h')"
  proof (rule k_means_loop_st.raw_induct [where P = ?Q, OF _ assms(1)])
    fix loop rnd a data_rows n m k h mv its res
    assume IH: "\<And>rnd a data_rows n m k h mv its res.
        loop rnd a data_rows n m k h mv its = Some res \<Longrightarrow> ?Q rnd a data_rows n m k h mv its res"
      and body: "(if fge mv DBL_EPSILON \<and> its < 2500
          then case iteration_st rnd a data_rows n m k h of
                 Inl e \<Rightarrow> Some (Inl e)
               | Inr (h', mv') \<Rightarrow> loop rnd a data_rows n m k h' mv' its
          else Some (Inr h)) = Some res"
    show "?Q rnd a data_rows n m k h mv its res"
    proof (cases "fge mv DBL_EPSILON \<and> its < 2500")
      case False
      then show ?thesis using body by auto
    next
      case True
      show ?thesis
      proof (cases "iteration_st rnd a data_rows n m k h")
        case (Inl e)
        then show ?thesis using body True by auto
      next
        case (Inr r)
        obtain h1 mv1 where r: "r = (h1, mv1)" by (cases r)
        have rest: "loop rnd a data_rows n m k h1 mv1 its = Some res"
          using body True Inr r by simp
        have "keeps B h0 h1" if "keeps B h0 h" "fresh_arrays B a"
          using that Inr r by (auto intro: iteration_st_keeps)
        with IH [OF rest] show ?thesis by blast
      qed
    qed
  qed
  then show ?thesis using assms(2,3) by blast
qed


lemma alloc_globals_keeps:
  assumes "keeps B h0 h" and "B \<le> ks" and "alloc_globals ks n m k h = Inr (a, h')"
  shows "keeps B h0 h' \<and> fresh_arrays B a"
proof -
  obtain followers h1 where a1: "alloc n h = (followers, h1)" by (cases "alloc n h")
  obtain count h2 where a2: "alloc k h1 = (count, h2)" by (cases "alloc k h1")
  obtain sum h3 where a3: "alloc k h2 = (sum, h3)" by (cases "alloc k h2")
  obtain prev h4 where a4: "alloc k h3 = (prev, h4)" by (cases "alloc k h3")
  from keeps_alloc [OF assms(1) a1] have k1: "keeps B h0 h1" and f1: "B \<le> followers"
    by simp_all
  from keeps_alloc [OF k1 a2] have k2: "keeps B h0 h2" and f2: "B \<le> count" by simp_all
  from keeps_alloc [OF k2 a3] have k3: "keeps B h0 h3" and f3: "B \<le> sum" by simp_all
  from keeps_alloc [OF k3 a4] have k4: "keeps B h0 h4" and f4: "B \<le> prev" by simp_all
  from assms(3) have
    loop: "forM [0..<k]
             (\<lambda>ki h.
                let (p, h') = alloc m h in
                ebind (store_cell h' prev ki (Ptr p)) (\<lambda>h''.
                let (s, h''') = alloc m h'' in store_cell h''' sum ki (Ptr s)))
             h4 = Inr h'" and
    a: "a = \<lparr>kernels_at = ks, prev_means_at = prev, followers_at = followers,
                   count_at = count, sum_at = sum\<rparr>"
    by (auto simp: alloc_globals_def a1 a2 a3 a4 ebind_eq_Inr)
  have "keeps B h0 h'"
    using loop k4
  proof (rule forM_inv)
    fix ki t t'
    assume k: "keeps B h0 t"
      and step: "(let (p, h') = alloc m t in
                ebind (store_cell h' prev ki (Ptr p)) (\<lambda>h''.
                let (s, h''') = alloc m h'' in store_cell h''' sum ki (Ptr s))) = Inr t'"
    obtain p ta where ap: "alloc m t = (p, ta)" by (cases "alloc m t")
    with step obtain tb where w: "store_cell ta prev ki (Ptr p) = Inr tb"
      and rest: "(let (s, h''') = alloc m tb in store_cell h''' sum ki (Ptr s)) = Inr t'"
      by (auto simp: ebind_eq_Inr)
    have "(let (r, h') = alloc m t in store_cell h' prev ki (Ptr r)) = Inr tb"
      using ap w by simp
    from keeps_alloc_store [OF k f4 this] have "keeps B h0 tb" .
    then show "keeps B h0 t'" using f3 rest by (rule keeps_alloc_store)
  qed
  then show ?thesis
    using assms(2) f1 f2 f3 f4 by (simp add: a fresh_arrays_def)
qed

lemma release_all_keeps:
  assumes "keeps B h0 h" and "fresh_arrays B a" and "release_all a k h = Inr h'"
  shows "keeps B h0 h'"
proof -
  have f: "B \<le> kernels_at a" "B \<le> prev_means_at a" "B \<le> count_at a" "B \<le> sum_at a"
    using assms(2) by (simp_all add: fresh_arrays_def)
  from assms(3) obtain h1 h2 h3 h4 where
    loop: "forM [0..<k]
          (\<lambda>ki h.
             ebind (load_p h (prev_means_at a) ki) (\<lambda>p.
             ebind (release p h) (\<lambda>h1.
             ebind (load_p h1 (kernels_at a) ki) (\<lambda>q.
             ebind (release q h1) (\<lambda>h2.
             ebind (load_p h2 (sum_at a) ki) (\<lambda>s. release s h2))))))
          h = Inr h1" and
    r1: "release (prev_means_at a) h1 = Inr h2" and
    r2: "release (kernels_at a) h2 = Inr h3" and
    r3: "release (count_at a) h3 = Inr h4" and
    r4: "release (sum_at a) h4 = Inr h'"
    unfolding release_all_def by (auto simp: ebind_eq_Inr)
  have k1: "keeps B h0 h1"
    using loop assms(1)
  proof (rule forM_inv)
    fix ki t t'
    assume k: "keeps B h0 t"
      and "ebind (load_p t (prev_means_at a) ki) (\<lambda>p.
             ebind (release p t) (\<lambda>h1.
             ebind (load_p h1 (kernels_at a) ki) (\<lambda>q.
             ebind (release q h1) (\<lambda>h2.
             ebind (load_p h2 (sum_at a) ki) (\<lambda>s. release s h2))))) = Inr t'"
    then obtain p ta q tb s where
      lp: "load_p t (prev_means_at a) ki = Inr p" and rp: "release p t = Inr ta" and
      lq: "load_p ta (kernels_at a) ki = Inr q" and rq: "release q ta = Inr tb" and
      ls: "load_p tb (sum_at a) ki = Inr s" and rs: "release s tb = Inr t'"
      by (auto simp: ebind_eq_Inr)
    from keeps_release [OF k keeps_load_p [OF k f(2) lp] rp] have ka: "keeps B h0 ta" .
    from keeps_release [OF ka keeps_load_p [OF ka f(1) lq] rq] have kb: "keeps B h0 tb" .
    from keeps_release [OF kb keeps_load_p [OF kb f(4) ls] rs] show "keeps B h0 t'" .
  qed
  from keeps_release [OF k1 f(2) r1] have k2: "keeps B h0 h2" .
  from keeps_release [OF k2 f(1) r2] have k3: "keeps B h0 h3" .
  from keeps_release [OF k3 f(3) r3] have k4: "keeps B h0 h4" .
  from keeps_release [OF k4 f(4) r4] show ?thesis .
qed

lemma keeps_start: "keeps (brk h) h h"
  by (simp add: keeps_def objs_beyond)

lemma load_d2_kept:
  assumes "keeps B h0 h'" and "\<forall>a\<ge>B. objs h0 a = None" and "load_d2 h0 a i j = Inr v"
  shows "load_d2 h' a i j = Inr v"
proof -
  from assms(3) obtain row where row: "load_p h0 a i = Inr row" and v: "load_d h0 row j = Inr v"
    by (auto simp: load_d2_def ebind_eq_Inr)
  from row obtain obj where "objs h0 a = Some obj" by (auto simp: load_p_eq_Inr)
  then have a: "a < B" using assms(2) by (metis not_le option.distinct(1))
  from v obtain obj' where "objs h0 row = Some obj'"
    by (auto simp: load_d_def load_def ebind_eq_Inr split: option.splits)
  then have r: "row < B" using assms(2) by (metis not_le option.distinct(1))
  have "objs h' a = objs h0 a" "objs h' row = objs h0 row"
    using assms(1) a r by (simp_all add: keeps_def)
  then have "load_p h' a i = load_p h0 a i" "load_d h' row j = load_d h0 row j"
    by (simp_all add: load_p_def load_d_def load_def)
  then show ?thesis using row v by (simp add: load_d2_def)
qed

text \<open>
  Claim C9. Neither initialisation strategy nor the loop of \<open>k_means\<close> writes to the
  caller's dataset. A run of \<open>k_means\<close> that returns leaves every object that existed at
  the call (the addresses below \<open>brk\<close>) as it was, so every element
  \<open>data_rows[r][c]\<close> that could be read at the call reads the same after it; the
  assignment array that the run returns is a new object.
\<close>

theorem k_means_st_frame:
  assumes "k_means_st rnd rng k data_rows n m generate_kernels h = Some (Inr (followers, h'))"
  shows "(\<forall>a<brk h. objs h' a = objs h a) \<and> brk h \<le> followers \<and>
         (\<forall>r c v. load_d2 h data_rows r c = Inr v \<longrightarrow> load_d2 h' data_rows r c = Inr v)"
proof -
  let ?B = "brk h"
  from assms(1) obtain ks h1 a h2 h3 where
    init: "(if generate_kernels then Some (generate_mean_kernels_st rnd data_rows n m k h)
         else pick_random_kernels_st rnd rng data_rows n m k h) = Some (Inr (ks, h1))" and
    glob: "alloc_globals ks n m k h1 = Inr (a, h2)" and
    loop: "k_means_loop_st rnd a data_rows n m k h2 INFINITY 0 = Some (Inr h3)" and
    fin: "ebind (release_all a k h3) (\<lambda>h4. Inr (followers_at a, h4)) = Inr (followers, h')"
    unfolding k_means_st_def by (auto split: option.splits sum.splits if_splits)
  note k0 = keeps_start [of h]
  have "keeps ?B h h1 \<and> ?B \<le> ks"
  proof (cases generate_kernels)
    case True
    then have "generate_mean_kernels_st rnd data_rows n m k h = Inr (ks, h1)"
      using init by simp
    from generate_mean_kernels_st_keeps [OF k0 this] show ?thesis .
  next
    case False
    then have "pick_random_kernels_st rnd rng data_rows n m k h = Some (Inr (ks, h1))"
      using init by simp
    from pick_random_kernels_st_keeps [OF k0 this] show ?thesis .
  qed
  then have k1: "keeps ?B h h1" and fk: "?B \<le> ks" by simp_all
  from alloc_globals_keeps [OF k1 fk glob] have k2: "keeps ?B h h2" and fa: "fresh_arrays ?B a"
    by simp_all
  from k_means_loop_st_keeps [OF loop k2 fa] have k3: "keeps ?B h h3" .
  from fin obtain h4 where rel: "release_all a k h3 = Inr h4"
    and e: "followers = followers_at a" "h' = h4"
    by (auto simp: ebind_eq_Inr)
  from release_all_keeps [OF k3 fa rel] have k4: "keeps ?B h h'" by (simp add: e)
  have "\<forall>a<brk h. objs h' a = objs h a" using k4 by (simp add: keeps_def)
  moreover have "brk h \<le> followers" using fa by (simp add: e fresh_arrays_def)
  moreover have "\<forall>r c v. load_d2 h data_rows r c = Inr v \<longrightarrow> load_d2 h' data_rows r c = Inr v"
    using load_d2_kept [OF k4] objs_beyond [of h] by blast
  ultimately show ?thesis by blast
qed

section \<open>A run in the store\<close>

lemmas store_simps =
  alloc_def release_def load_def store_cell_def load_d_def load_p_def load_n_def load_d2_def
  store_d2_def objs_def brk_def

lemma two_rows_store_generate:
  "generate_mean_kernels_st exact 0 2 1 2 two_rows_store = Inr (6, two_rows_store_kernels)"
  by (simp add: generate_mean_kernels_st_def alloc_rows_st_def copy_row_st_def qsort_r_st_def
      cmpf64v_st_def pivot_of_def two_rows_store_def two_rows_store_kernels_def store_simps
      run_simps)

lemma two_rows_store_globals:
  "alloc_globals 6 2 1 2 two_rows_store_kernels = Inr (two_rows_arrays, two_rows_store_start)"
  by (simp add: alloc_globals_def two_rows_store_def two_rows_store_kernels_def
      two_rows_store_start_def two_rows_arrays_def store_simps run_simps)

lemma two_rows_store_iteration:
  "iteration_st exact two_rows_arrays 0 2 1 2 two_rows_store_start =
     Inr (two_rows_store_loop, Fin 0)"
  by (simp add: iteration_st_def snapshot_st_def reset_st_def assign_row_st_def closest_st_def
      distf64v_st_def update_st_def update_movement_st_def two_rows_store_def
      two_rows_store_kernels_def two_rows_store_start_def two_rows_store_loop_def
      two_rows_arrays_def store_simps run_simps)

lemma k_means_loop_st_continue:
  assumes "fge mv DBL_EPSILON" and "its < 2500"
    and "iteration_st rnd a data_rows n m k h = Inr (h', mv')"
  shows "k_means_loop_st rnd a data_rows n m k h mv its =
         k_means_loop_st rnd a data_rows n m k h' mv' its"
  by (subst k_means_loop_st.simps) (simp add: assms)

lemma k_means_loop_st_stop:
  assumes "\<not> fge mv DBL_EPSILON"
  shows "k_means_loop_st rnd a data_rows n m k h mv its = Some (Inr h)"
  by (subst k_means_loop_st.simps) (simp add: assms)

lemma k_means_st_generate:
  assumes "generate_mean_kernels_st rnd data_rows n m k h = Inr (ks, h1)"
    and "alloc_globals ks n m k h1 = Inr (a, h2)"
    and "k_means_loop_st rnd a data_rows n m k h2 INFINITY 0 = Some (Inr h3)"
    and "release_all a k h3 = Inr h4"
  shows "k_means_st rnd rng k data_rows n m True h = Some (Inr (followers_at a, h4))"
  by (simp add: k_means_st_def assms ebind_def)

lemma two_rows_store_run_loop:
  "k_means_loop_st exact two_rows_arrays 0 2 1 2 two_rows_store_start INFINITY 0 =
     Some (Inr two_rows_store_loop)"
proof -
  have "k_means_loop_st exact two_rows_arrays 0 2 1 2 two_rows_store_start INFINITY 0 =
        k_means_loop_st exact two_rows_arrays 0 2 1 2 two_rows_store_loop (Fin 0) 0"
    by (rule k_means_loop_st_continue [OF _ _ two_rows_store_iteration])
       (simp_all add: INFINITY_def DBL_EPSILON_def)
  also have "\<dots> = Some (Inr two_rows_store_loop)"
    by (rule k_means_loop_st_stop) (simp add: DBL_EPSILON_def)
  finally show ?thesis .
qed

lemma two_rows_store_release:
  "release_all two_rows_arrays 2 two_rows_store_loop = Inr two_rows_store_final"
  by (simp add: release_all_def two_rows_store_def two_rows_store_kernels_def
      two_rows_store_loop_def two_rows_store_final_def two_rows_arrays_def store_simps
      run_simps)

lemma two_rows_store_run:
  "k_means_st exact rng 2 0 2 1 True two_rows_store = Some (Inr (10, two_rows_store_final))"
  using k_means_st_generate [OF two_rows_store_generate two_rows_store_globals
      two_rows_store_run_loop two_rows_store_release, of rng]
  by (simp add: two_rows_arrays_def)

theorem k_means_st_frame_witness:
  "k_means_st exact (\<lambda>c. 0) 2 0 2 1 True two_rows_store = Some (Inr (10, two_rows_store_final)) \<and>
   objs two_rows_store_final 0 = objs two_rows_store 0 \<and>
   objs two_rows_store_final 1 = objs two_rows_store 1 \<and>
   objs two_rows_store_final 2 = objs two_rows_store 2 \<and>
   brk two_rows_store \<le> 10 \<and>
   load_d2 two_rows_store 0 0 0 = Inr (Fin 1) \<and>
   load_d2 two_rows_store_final 0 0 0 = Inr (Fin 1) \<and>
   load_d2 two_rows_store 0 1 0 = Inr (Fin 3) \<and>
   load_d2 two_rows_store_final 0 1 0 = Inr (Fin 3)"
proof -
  note run = two_rows_store_run [of "\<lambda>c. 0"]
  note frame = k_means_st_frame [OF run]
  have b: "brk two_rows_store = 3" by (simp add: brk_def two_rows_store_def)
  have d: "load_d2 two_rows_store 0 0 0 = Inr (Fin 1)" "load_d2 two_rows_store 0 1 0 = Inr (Fin 3)"
    by (simp_all add: two_rows_store_def store_simps run_simps)
  from frame have o: "objs two_rows_store_final a = objs two_rows_store a" if "a < 3" for a
    using that b by simp
  from frame d have "load_d2 two_rows_store_final 0 0 0 = Inr (Fin 1)"
    "load_d2 two_rows_store_final 0 1 0 = Inr (Fin 3)" by blast+
  moreover from frame b have "brk two_rows_store \<le> 10" by simp
  ultimately show ?thesis using run d o [of 0] o [of 1] o [of 2] by simp
qed

end
